theory Spec2Isabelle
  imports Main
begin

section \<open>Shared vocabulary\<close>

text \<open>
  The three services of the repository (\<open>MailService\<close>, \<open>GmailApiPollingService\<close>,
  \<open>OutlookGraphPollingService\<close>) are classes with private mutable fields. Each class is a
  record of its fields, each method a function from the record (and from what the outside
  world answers to the calls the method makes) to the updated record. A thrown \<open>Error\<close>,
  or a rejected promise, is a value of type \<open>error\<close>.

  The numbers that the code counts with or receives from a backend (a UID, a length, a
  status, a number of seconds or of milliseconds) are modelled as \<open>int\<close>. A number that
  the code makes with \<open>Number(...)\<close> from the text of a setting is a \<open>number\<close>: an
  integer, or \<open>NaN\<close> when the text is not a numeral. The code computes with one such
  number only, the capacity of the cache in the test \<^verbatim>\<open>length > processedCache\<close>; there a
  fraction decides as the integer below it, \<open>Infinity\<close> as \<open>NaN\<close> (the test is never true)
  and \<open>-Infinity\<close> as a negative integer (the test is always true), so these values have no
  constructor of their own.
\<close>

datatype number = Num int | NaN

datatype error =
  MissingEnv string
  | Rejected string
  | SmtpNotReady
  | TokenRequestFailed int string
  | TokenMissing
  | ListMessagesFailed int string
  | SyntaxError

text \<open>
  What a service hands to its \<open>Logger\<close>. \<open>Detected i f s\<close> is the line
  ``detected message \<open>i\<close> from \<open>f\<close> with subject \<open>s\<close>'' that the two polling services print
  for a new message: their notification. \<open>NoMatching\<close> is the debug line of an empty
  listing, \<open>LogError m e\<close> the call \<open>logger.error(m, ...)\<close> for the caught error \<open>e\<close>,
  \<open>LogInfo m\<close> any other \<open>logger.log(m)\<close>.
\<close>

datatype log_line =
  Detected string string string
  | NoMatching
  | LogError string error
  | LogInfo string

text \<open>
  The result of running a method: it returned, or it threw; the fields are left as the
  method had set them at that moment.
\<close>

datatype 's outcome = Returned 's | Threw error 's

fun state_of :: "'s outcome \<Rightarrow> 's" where
  "state_of (Returned s) = s"
| "state_of (Threw e s) = s"

fun threw :: "'s outcome \<Rightarrow> bool" where
  "threw (Returned s) = False"
| "threw (Threw e s) = True"

text \<open>JavaScript truthiness of an optional string: \<open>undefined\<close> and \<open>""\<close> are falsy.\<close>

fun truthy :: "string option \<Rightarrow> bool" where
  "truthy None = False"
| "truthy (Some v) = (v \<noteq> [])"

text \<open>\<open>a || b\<close> on an optional string and a default.\<close>

fun or_else :: "string option \<Rightarrow> string \<Rightarrow> string" where
  "or_else None d = d"
| "or_else (Some v) d = (if v = [] then d else v)"

text \<open>
  A string is the list of its bytes in UTF-8. \<open>String.prototype.toLowerCase\<close> is
  modelled on the ASCII letters (the bytes 65 to 90); the bytes of the other code points
  are left as they are. The code compares a lowered string only with the words \<open>true\<close>,
  \<open>subject\<close> and \<open>from\<close>, and no code point outside ASCII lowers to one of their
  letters, so these comparisons come out as in the code.
\<close>

definition lower_char :: "char \<Rightarrow> char" where
  "lower_char c =
     (let n = of_char c :: nat in if 65 \<le> n \<and> n \<le> 90 then char_of (n + 32) else c)"

definition toLowerCase :: "string \<Rightarrow> string" where
  "toLowerCase s = map lower_char s"

text \<open>
  \<open>String.prototype.trim\<close> removes, at both ends, the white space and the line
  terminators of ECMAScript: U+0009 to U+000D, U+0020, U+00A0, U+1680, U+2000 to U+200A,
  U+2028, U+2029, U+202F, U+205F, U+3000 and U+FEFF. \<open>white_space\<close> lists them in UTF-8.
\<close>

definition white_space :: "string list" where
  "white_space =
     [[CHR 0x09], [CHR 0x0A], [CHR 0x0B], [CHR 0x0C], [CHR 0x0D], [CHR 0x20],
      [CHR 0xC2, CHR 0xA0], [CHR 0xE1, CHR 0x9A, CHR 0x80]]
     @ map (\<lambda>b. [CHR 0xE2, CHR 0x80, b])
         [CHR 0x80, CHR 0x81, CHR 0x82, CHR 0x83, CHR 0x84, CHR 0x85, CHR 0x86, CHR 0x87,
          CHR 0x88, CHR 0x89, CHR 0x8A, CHR 0xA8, CHR 0xA9, CHR 0xAF]
     @ [[CHR 0xE2, CHR 0x81, CHR 0x9F], [CHR 0xE3, CHR 0x80, CHR 0x80],
        [CHR 0xEF, CHR 0xBB, CHR 0xBF]]"

text \<open>\<open>strip_start ws s\<close> removes from the start of \<open>s\<close> every leading word of \<open>ws\<close>.\<close>

function strip_start :: "string list \<Rightarrow> string \<Rightarrow> string" where
  "strip_start ws s =
     (case find (\<lambda>p. p \<noteq> [] \<and> take (length p) s = p) ws of
        None \<Rightarrow> s
      | Some p \<Rightarrow> strip_start ws (drop (length p) s))"
  by pat_completeness auto
termination
proof (relation "measure (\<lambda>(ws, s). length s)")
  show "wf (measure (\<lambda>(ws, s). length s))" by simp
next
  fix ws :: "string list" and s p :: string
  assume "find (\<lambda>p. p \<noteq> [] \<and> take (length p) s = p) ws = Some p"
  then have p: "p \<noteq> []" "take (length p) s = p" by (auto simp: find_Some_iff)
  from p(2) have "length (take (length p) s) = length p" by (rule arg_cong)
  then have "length p \<le> length s" by simp
  with p(1) have "length (drop (length p) s) < length s" by (cases p) auto
  then show "((ws, drop (length p) s), (ws, s)) \<in> measure (\<lambda>(ws, s). length s)" by simp
qed

definition trim :: "string \<Rightarrow> string" where
  "trim s = rev (strip_start (map rev white_space) (rev (strip_start white_space s)))"

text \<open>
  The calls a service makes to its backend, in the order it makes them. The classes do
  not store them: the field \<open>requests\<close> below is the trace of the calls to
  \<open>gmail.users.messages.list\<close>, \<open>gmail.users.messages.get\<close>, \<open>fetch\<close> (the token
  endpoint and the Graph listing) and \<open>imapClient.fetch\<close>.
\<close>

datatype request =
  MessagesList
  | MessagesGet string
  | TokenPost
  | GraphList
  | ImapFetch int

text \<open>What every service has: its \<open>logger\<close>, and the trace of its backend calls.\<close>

record service =
  logger :: "log_line list"
  requests :: "request list"

definition log_to :: "log_line \<Rightarrow> 'a service_scheme \<Rightarrow> 'a service_scheme" where
  "log_to l s = s\<lparr>logger := logger s @ [l]\<rparr>"

definition call :: "request \<Rightarrow> 'a service_scheme \<Rightarrow> 'a service_scheme" where
  "call r s = s\<lparr>requests := requests s @ [r]\<rparr>"

subsection \<open>The configuration service\<close>

text \<open>
  \<open>ConfigService.get(key)\<close> is a lookup in the environment \<open>env\<close>; with a second
  argument it returns that default for an undefined variable. \<open>Number(...)\<close> of a
  variable's text is the parameter \<open>num\<close> of the functions that read a number; it may
  be \<open>NaN\<close>.
\<close>

type_synonym environment = "string \<Rightarrow> string option"

definition get_or :: "environment \<Rightarrow> string \<Rightarrow> string \<Rightarrow> string" where
  "get_or env key d = (case env key of None \<Rightarrow> d | Some v \<Rightarrow> v)"

definition get_number ::
  "environment \<Rightarrow> (string \<Rightarrow> number) \<Rightarrow> string \<Rightarrow> int \<Rightarrow> number" where
  "get_number env num key d = (case env key of None \<Rightarrow> Num d | Some v \<Rightarrow> num v)"

definition requireEnv :: "environment \<Rightarrow> string \<Rightarrow> error + string" where
  "requireEnv env key =
     (case env key of
        None \<Rightarrow> Inl (MissingEnv key)
      | Some v \<Rightarrow> if v = [] then Inl (MissingEnv key) else Inr v)"

definition isEnabled :: "environment \<Rightarrow> string \<Rightarrow> bool" where
  "isEnabled env key = (toLowerCase (trim (get_or env key [])) = ''true'')"

text \<open>\<open>s.split(",")\<close>: the pieces of \<open>s\<close> between the commas, at least one piece.\<close>

fun split_on :: "char \<Rightarrow> string \<Rightarrow> string list" where
  "split_on c [] = [[]]"
| "split_on c (x # xs) =
     (if x = c then [] # split_on c xs
      else (case split_on c xs of [] \<Rightarrow> [[x]] | p # ps \<Rightarrow> (x # p) # ps))"

section \<open>The polling services: the cache of processed identifiers\<close>

text \<open>
  \<open>GmailApiPollingService\<close> and \<open>OutlookGraphPollingService\<close> declare the same
  fields \<open>config\<close>, \<open>cronJob\<close>, \<open>processedQueue\<close> and \<open>processedSet\<close>, and the same
  method \<open>trackProcessed\<close>, character for character. They are modelled once, as a record
  that each service extends; \<open>polling_config\<close> holds the settings both configurations
  have. \<open>cronJob\<close> says whether the job was created and started.
\<close>

record polling_config =
  clientId :: string
  clientSecret :: string
  cronExpression :: string
  processedCache :: number

record 'c poller = service +
  config :: "'c option"
  cronJob :: bool
  processedQueue :: "string list"
  processedSet :: "string set"

text \<open>
  The loop of \<open>trackProcessed\<close>:
  \<^verbatim>\<open>while (this.processedQueue.length > this.config.processedCache) {
    const oldest = this.processedQueue.shift();
    if (oldest) { this.processedSet.delete(oldest); } }\<close>
  \<open>shift\<close> on an empty array returns \<open>undefined\<close> and leaves the array empty, so with a
  negative \<open>processedCache\<close> the loop never ends: the loop is a partial function, and
  \<open>None\<close> is the run that does not return. A comparison with \<open>NaN\<close> is false, so with
  \<open>NaN\<close> the loop does nothing. The empty string is falsy, so an \<open>oldest\<close> that is \<open>""\<close>
  leaves the queue and stays in the set.
\<close>

fun exceeds :: "nat \<Rightarrow> number \<Rightarrow> bool" where
  "exceeds len NaN = False"
| "exceeds len (Num c) = (int len > c)"

partial_function (option) evict ::
  "number \<Rightarrow> string list \<times> string set \<Rightarrow> (string list \<times> string set) option" where
  "evict cap qs =
     (if exceeds (length (fst qs)) cap then
        (case fst qs of
           [] \<Rightarrow> evict cap ([], snd qs)
         | oldest # rest \<Rightarrow>
             evict cap (rest, if oldest \<noteq> [] then snd qs - {oldest} else snd qs))
      else Some qs)"

declare evict.simps [code]

definition trackProcessed ::
  "string \<Rightarrow> ('a polling_config_scheme, 'b) poller_scheme
     \<Rightarrow> ('a polling_config_scheme, 'b) poller_scheme option" where
  "trackProcessed i s =
     (case config s of
        None \<Rightarrow> Some s
      | Some cfg \<Rightarrow>
          if i \<in> processedSet s then Some s
          else map_option (\<lambda>(q, S). s\<lparr>processedQueue := q, processedSet := S\<rparr>)
                 (evict (processedCache cfg) (processedQueue s @ [i], insert i (processedSet s))))"

text \<open>A sequence of \<open>trackProcessed\<close> calls, one after the other.\<close>

fun trackAll ::
  "string list \<Rightarrow> ('a polling_config_scheme, 'b) poller_scheme
     \<Rightarrow> ('a polling_config_scheme, 'b) poller_scheme option" where
  "trackAll [] s = Some s"
| "trackAll (i # is) s = (case trackProcessed i s of None \<Rightarrow> None | Some s' \<Rightarrow> trackAll is s')"

text \<open>
  The invariant of the cache: at most \<open>cap\<close> identifiers, no identifier twice in the
  queue, and the set holds the elements of the queue and nothing else.
\<close>

definition cache_inv :: "int \<Rightarrow> ('c, 'b) poller_scheme \<Rightarrow> bool" where
  "cache_inv cap s =
     (int (length (processedQueue s)) \<le> cap \<and> distinct (processedQueue s)
      \<and> set (processedQueue s) = processedSet s)"

section \<open>GmailApiPollingService\<close>

record gmail_config = polling_config +
  redirectUri :: string
  refreshToken :: string
  query :: string
  labelIds :: "string list"
  maxResults :: number

text \<open>\<open>gmail\<close> says whether the client object was created (\<open>this.gmail\<close> is defined).\<close>

record gmail_service = "gmail_config poller" +
  gmail :: bool

text \<open>
  A header of a message as \<open>messages.get\<close> returns it: an optional name and an optional
  value. A result without a payload, or without headers, is the empty list
  (\<open>headers?.forEach\<close> then does nothing).
\<close>

type_synonym header = "string option \<times> string option"

fun set_header :: "header \<Rightarrow> (string \<rightharpoonup> string) \<Rightarrow> (string \<rightharpoonup> string)" where
  "set_header (Some n, Some v) m =
     (if toLowerCase n \<noteq> [] \<and> v \<noteq> [] then m(toLowerCase n \<mapsto> v) else m)"
| "set_header h m = m"

definition asHeaderMap :: "header list \<Rightarrow> (string \<rightharpoonup> string)" where
  "asHeaderMap headers = fold set_header headers Map.empty"

text \<open>
  \<open>inspectMessage\<close> is what the Gmail service does with a new message: it asks the
  backend for the metadata and logs the notification. It is cut at its \<open>await\<close>:
  \<open>inspect_begin\<close> runs up to the call of \<open>messages.get\<close> (\<open>None\<close> when the method returns
  at once), \<open>inspect_resume\<close> runs from the answer (an error when the call rejects, else
  the headers) to the end. In \<open>inspectMessage\<close> the answer for an identifier is
  \<open>get_message\<close>.
\<close>

definition inspect_begin :: "string \<Rightarrow> gmail_service \<Rightarrow> gmail_service option" where
  "inspect_begin i s = (if \<not> gmail s then None else Some (call (MessagesGet i) s))"

definition inspect_resume ::
  "(error + header list) \<Rightarrow> string \<Rightarrow> gmail_service \<Rightarrow> gmail_service outcome" where
  "inspect_resume answer i s =
     (case answer of
        Inl e \<Rightarrow> Threw e s
      | Inr hs \<Rightarrow>
          (let headers = asHeaderMap hs;
               subject = or_else (headers ''subject'') ''(no subject)'';
               sender = or_else (headers ''from'') ''unknown sender''
           in Returned (log_to (Detected i sender subject) s)))"

definition inspectMessage ::
  "(string \<Rightarrow> error + header list) \<Rightarrow> string \<Rightarrow> gmail_service \<Rightarrow> gmail_service outcome" where
  "inspectMessage get_message i s =
     (case inspect_begin i s of
        None \<Rightarrow> Returned s
      | Some s' \<Rightarrow> inspect_resume (get_message i) i s')"

text \<open>
  The loop of \<open>pollInbox\<close> over the listed entries; an entry is its \<open>id\<close> field, which
  the API's type declares optional.
\<close>

fun gmail_poll_loop ::
  "(string \<Rightarrow> error + header list) \<Rightarrow> string option list \<Rightarrow> gmail_service
     \<Rightarrow> gmail_service outcome option" where
  "gmail_poll_loop get_message [] s = Some (Returned s)"
| "gmail_poll_loop get_message (None # rest) s = gmail_poll_loop get_message rest s"
| "gmail_poll_loop get_message (Some i # rest) s =
     (if i = [] \<or> i \<in> processedSet s then gmail_poll_loop get_message rest s
      else
        (case inspectMessage get_message i s of
           Threw e s' \<Rightarrow> Some (Threw e s')
         | Returned s' \<Rightarrow>
             (case trackProcessed i s' of
                None \<Rightarrow> None
              | Some s'' \<Rightarrow> gmail_poll_loop get_message rest s'')))"

text \<open>
  \<open>pollInbox\<close> in two parts, cut at its first \<open>await\<close>. \<open>gmail_poll_begin\<close> runs up to
  the call of \<open>messages.list\<close>: \<open>None\<close> when the method returns at once, the state with
  the call recorded otherwise. \<open>gmail_poll_resume\<close> runs from the answer \<open>listing\<close> (an
  error when the call rejects, else \<open>response.data.messages\<close>, which may be undefined) to
  the end.
\<close>

definition gmail_poll_begin :: "gmail_service \<Rightarrow> gmail_service option" where
  "gmail_poll_begin s =
     (if \<not> gmail s \<or> config s = None then None else Some (call MessagesList s))"

definition gmail_poll_resume ::
  "(error + string option list option) \<Rightarrow> (string \<Rightarrow> error + header list) \<Rightarrow> gmail_service
     \<Rightarrow> gmail_service outcome option" where
  "gmail_poll_resume listing get_message s =
     (case listing of
        Inl e \<Rightarrow> Some (Threw e s)
      | Inr ms \<Rightarrow>
          (let messages = (case ms of None \<Rightarrow> [] | Some l \<Rightarrow> l)
           in if messages = [] then Some (Returned (log_to NoMatching s))
              else gmail_poll_loop get_message messages s))"

definition gmail_pollInbox ::
  "(error + string option list option) \<Rightarrow> (string \<Rightarrow> error + header list) \<Rightarrow> gmail_service
     \<Rightarrow> gmail_service outcome option" where
  "gmail_pollInbox listing get_message s =
     (case gmail_poll_begin s of
        None \<Rightarrow> Some (Returned s)
      | Some s' \<Rightarrow> gmail_poll_resume listing get_message s')"

text \<open>
  What the cron job's callback does with the promise of \<open>pollInbox\<close>: a rejection is
  logged, nothing else.
\<close>

fun caught :: "string \<Rightarrow> 'a service_scheme outcome \<Rightarrow> 'a service_scheme" where
  "caught m (Returned s) = s"
| "caught m (Threw e s) = log_to (LogError m e) s"

definition gmail_tick ::
  "(error + string option list option) \<Rightarrow> (string \<Rightarrow> error + header list) \<Rightarrow> gmail_service
     \<Rightarrow> gmail_service option" where
  "gmail_tick listing get_message s =
     map_option (caught ''Gmail API poll failed'') (gmail_pollInbox listing get_message s)"

text \<open>A sequence of ticks, each poll ending before the next tick.\<close>

fun gmail_ticks ::
  "((error + string option list option) \<times> (string \<Rightarrow> error + header list)) list \<Rightarrow> gmail_service
     \<Rightarrow> gmail_service option" where
  "gmail_ticks [] s = Some s"
| "gmail_ticks ((listing, get_message) # ws) s =
     (case gmail_tick listing get_message s of None \<Rightarrow> None | Some s' \<Rightarrow> gmail_ticks ws s')"

text \<open>The identifiers notified, in order: the \<open>Detected\<close> lines of a log.\<close>

fun notified :: "log_line list \<Rightarrow> string list" where
  "notified [] = []"
| "notified (Detected i f s # ls) = i # notified ls"
| "notified (l # ls) = notified ls"

text \<open>
  The cron job and the polls, as a machine. \<open>registerCronJob\<close> gives the job the callback
  \<^verbatim>\<open>() => { this.pollInbox().catch(...) }\<close>: every tick calls \<open>pollInbox\<close>, which runs
  to its first \<open>await\<close> and is suspended there; when the awaited call is answered, the
  poll runs on to its next \<open>await\<close>, or to its end. A poll is suspended at the call of
  \<open>messages.list\<close> (\<open>AwaitList\<close>), or in its loop at the call of \<open>messages.get\<close> for an
  identifier, with the entries that come after it still to do (\<open>AwaitGet\<close>). The state of
  the machine is the service and the list of the suspended polls.

  \<open>gmail_advance\<close> is the loop of \<open>pollInbox\<close> from an entry on, up to the next call of
  \<open>messages.get\<close>: the state, and the identifier asked for with the entries after it, or
  \<open>None\<close> when the loop has ended.
\<close>

datatype gmail_task = AwaitList | AwaitGet string "string option list"

fun gmail_advance ::
  "string option list \<Rightarrow> gmail_service
     \<Rightarrow> (gmail_service \<times> (string \<times> string option list) option) option" where
  "gmail_advance [] s = Some (s, None)"
| "gmail_advance (None # rest) s = gmail_advance rest s"
| "gmail_advance (Some i # rest) s =
     (if i = [] \<or> i \<in> processedSet s then gmail_advance rest s
      else
        (case inspect_begin i s of
           Some s' \<Rightarrow> Some (s', Some (i, rest))
         | None \<Rightarrow>
             (case trackProcessed i s of
                None \<Rightarrow> None
              | Some s' \<Rightarrow> gmail_advance rest s')))"

text \<open>
  The poll number \<open>k\<close> has run on: it is suspended again at a \<open>messages.get\<close>, or it has
  ended and leaves the list.
\<close>

fun gmail_suspend ::
  "nat \<Rightarrow> gmail_task list \<Rightarrow> gmail_service \<times> (string \<times> string option list) option
     \<Rightarrow> gmail_service \<times> gmail_task list" where
  "gmail_suspend k tasks (s, None) = (s, take k tasks @ drop (Suc k) tasks)"
| "gmail_suspend k tasks (s, Some (i, rest)) = (s, tasks[k := AwaitGet i rest])"

text \<open>
  \<open>Tick\<close> is a tick of the job. \<open>ListAnswer k listing\<close> is the backend answering the
  \<open>messages.list\<close> of the suspended poll number \<open>k\<close>, and \<open>GetAnswer k answer\<close> its
  answering the \<open>messages.get\<close> of that poll; an answer for a poll that is not waiting
  for it changes nothing. A poll that throws is caught by the callback's \<open>catch\<close>.
\<close>

datatype gmail_event =
  Tick
  | ListAnswer nat "error + string option list option"
  | GetAnswer nat "error + header list"

fun gmail_step ::
  "gmail_service \<times> gmail_task list \<Rightarrow> gmail_event \<Rightarrow> (gmail_service \<times> gmail_task list) option" where
  "gmail_step (s, tasks) Tick =
     (case gmail_poll_begin s of
        None \<Rightarrow> Some (s, tasks)
      | Some s' \<Rightarrow> Some (s', tasks @ [AwaitList]))"
| "gmail_step (s, tasks) (ListAnswer k listing) =
     (if k < length tasks \<and> tasks ! k = AwaitList then
        (case listing of
           Inl e \<Rightarrow>
             Some (gmail_suspend k tasks (log_to (LogError ''Gmail API poll failed'' e) s, None))
         | Inr ms \<Rightarrow>
             (let messages = (case ms of None \<Rightarrow> [] | Some l \<Rightarrow> l)
              in if messages = [] then Some (gmail_suspend k tasks (log_to NoMatching s, None))
                 else map_option (gmail_suspend k tasks) (gmail_advance messages s)))
      else Some (s, tasks))"
| "gmail_step (s, tasks) (GetAnswer k answer) =
     (if k < length tasks then
        (case tasks ! k of
           AwaitList \<Rightarrow> Some (s, tasks)
         | AwaitGet i rest \<Rightarrow>
             (case inspect_resume answer i s of
                Threw e s' \<Rightarrow>
                  Some (gmail_suspend k tasks
                          (log_to (LogError ''Gmail API poll failed'' e) s', None))
              | Returned s' \<Rightarrow>
                  (case trackProcessed i s' of
                     None \<Rightarrow> None
                   | Some s'' \<Rightarrow> map_option (gmail_suspend k tasks) (gmail_advance rest s''))))
      else Some (s, tasks))"

fun gmail_run ::
  "gmail_service \<times> gmail_task list \<Rightarrow> gmail_event list \<Rightarrow> (gmail_service \<times> gmail_task list) option" where
  "gmail_run c [] = Some c"
| "gmail_run c (e # es) = (case gmail_step c e of None \<Rightarrow> None | Some c' \<Rightarrow> gmail_run c' es)"

section \<open>OutlookGraphPollingService\<close>

record outlook_config = polling_config +
  tenantId :: string
  userId :: string
  folderId :: string
  topN :: number

record outlook_service = "outlook_config poller" +
  accessToken :: "string option"
  accessTokenExpiresAtMs :: int

text \<open>
  A \<open>GraphMessage\<close>: \<open>fromName\<close> is \<open>from?.emailAddress?.name\<close> and \<open>fromAddress\<close> is
  \<open>from?.emailAddress?.address\<close>.
\<close>

record graph_message =
  msg_id :: "string option"
  msg_subject :: "string option"
  fromName :: "string option"
  fromAddress :: "string option"

text \<open>
  The answer of \<open>fetch\<close>: an error when the promise rejects, else a response with its
  \<open>ok\<close> flag, its status, its text and what \<open>JSON.parse\<close> makes of the text (\<open>None\<close>
  when it throws).
\<close>

record 'a http_response =
  ok :: bool
  status :: int
  bodyText :: string
  parsed :: "'a option"

text \<open>
  The body of the answer of the token endpoint: \<open>expires_in\<close> is the field when it is a
  number, a whole number of seconds, and \<open>None\<close> when \<^verbatim>\<open>typeof body.expires_in\<close> is not
  \<^verbatim>\<open>"number"\<close>.
\<close>

record token_body =
  access_token :: "string option"
  expires_in :: "int option"

text \<open>
  What the world answers during one poll: the clock at the start of \<open>getAccessToken\<close>,
  the answer of the token endpoint, the clock when that answer has been read, and the
  answer of the Graph listing (its parsed body is the field \<open>value\<close>, which may be
  undefined).
\<close>

record graph_world =
  now :: int
  tokenResponse :: "error + token_body http_response"
  nowAfter :: int
  listResponse :: "error + graph_message list option http_response"

text \<open>
  \<open>getAccessToken\<close>. \<open>exchangeToken\<close> is the method from the \<open>fetch\<close> of the token
  endpoint on: the part that runs when the cached token is not returned. It is cut at
  the \<open>await\<close> of that \<open>fetch\<close>: the request is made, and \<open>token_answer\<close> runs from the
  answer to the end, the clock being read again when the token is stored. The \<open>config\<close>
  argument only builds the URL and the form, and is left out.
\<close>

definition token_answer ::
  "(error + token_body http_response) \<Rightarrow> int \<Rightarrow> outlook_service
     \<Rightarrow> (error + string) \<times> outlook_service" where
  "token_answer answer t s =
     (case answer of
        Inl e \<Rightarrow> (Inl e, s)
      | Inr response \<Rightarrow>
          if \<not> ok response
          then (Inl (TokenRequestFailed (status response) (bodyText response)), s)
          else
            (case parsed response of
               None \<Rightarrow> (Inl SyntaxError, s)
             | Some body \<Rightarrow>
                 (case access_token body of
                    None \<Rightarrow> (Inl TokenMissing, s)
                  | Some token \<Rightarrow>
                      if token = [] then (Inl TokenMissing, s)
                      else
                        (let expiresInSec =
                           (case expires_in body of Some n \<Rightarrow> n | None \<Rightarrow> 3600)
                         in (Inr token,
                             s\<lparr>accessToken := Some token,
                               accessTokenExpiresAtMs := t + expiresInSec * 1000\<rparr>)))))"

definition exchangeToken ::
  "graph_world \<Rightarrow> outlook_service \<Rightarrow> (error + string) \<times> outlook_service" where
  "exchangeToken w s = token_answer (tokenResponse w) (nowAfter w) (call TokenPost s)"

text \<open>
  The test that opens \<open>getAccessToken\<close>,
  \<^verbatim>\<open>if (this.accessToken && now < this.accessTokenExpiresAtMs - 30_000)\<close>:
  \<open>cachedToken\<close> is the token that the method returns without an exchange, if any.
\<close>

definition cachedToken :: "int \<Rightarrow> outlook_service \<Rightarrow> string option" where
  "cachedToken t s =
     (case accessToken s of
        None \<Rightarrow> None
      | Some token \<Rightarrow>
          if token \<noteq> [] \<and> t < accessTokenExpiresAtMs s - 30000 then Some token else None)"

definition getAccessToken ::
  "graph_world \<Rightarrow> outlook_service \<Rightarrow> (error + string) \<times> outlook_service" where
  "getAccessToken w s =
     (case cachedToken (now w) s of
        Some token \<Rightarrow> (Inr token, s)
      | None \<Rightarrow> exchangeToken w s)"

text \<open>
  \<open>listUnreadMessages\<close>: the token, then the \<open>fetch\<close> of the listing; \<open>list_answer\<close> is
  what the method makes of the answer of that \<open>fetch\<close>.
\<close>

definition list_answer ::
  "(error + graph_message list option http_response) \<Rightarrow> error + graph_message list" where
  "list_answer answer =
     (case answer of
        Inl e \<Rightarrow> Inl e
      | Inr response \<Rightarrow>
          if \<not> ok response
          then Inl (ListMessagesFailed (status response) (bodyText response))
          else
            (case parsed response of
               None \<Rightarrow> Inl SyntaxError
             | Some body \<Rightarrow> Inr (case body of None \<Rightarrow> [] | Some ms \<Rightarrow> ms)))"

definition listUnreadMessages ::
  "graph_world \<Rightarrow> outlook_service \<Rightarrow> (error + graph_message list) \<times> outlook_service" where
  "listUnreadMessages w s =
     (case getAccessToken w s of
        (Inl e, s1) \<Rightarrow> (Inl e, s1)
      | (Inr token, s1) \<Rightarrow> (list_answer (listResponse w), call GraphList s1))"

text \<open>\<open>logMessage\<close>, for a message whose identifier is \<open>i\<close>.\<close>

definition logMessage :: "string \<Rightarrow> graph_message \<Rightarrow> outlook_service \<Rightarrow> outlook_service" where
  "logMessage i message s =
     (let subject = or_else (msg_subject message) ''(no subject)'';
          sender = or_else (fromName message) (or_else (fromAddress message) ''unknown sender'')
      in log_to (Detected i sender subject) s)"

fun outlook_poll_loop ::
  "graph_message list \<Rightarrow> outlook_service \<Rightarrow> outlook_service outcome option" where
  "outlook_poll_loop [] s = Some (Returned s)"
| "outlook_poll_loop (message # rest) s =
     (case msg_id message of
        None \<Rightarrow> outlook_poll_loop rest s
      | Some i \<Rightarrow>
          if i = [] \<or> i \<in> processedSet s then outlook_poll_loop rest s
          else
            (case trackProcessed i (logMessage i message s) of
               None \<Rightarrow> None
             | Some s' \<Rightarrow> outlook_poll_loop rest s'))"

text \<open>
  \<open>pollInbox\<close>; \<open>outlook_poll_rest\<close> is the method from the result of
  \<open>listUnreadMessages\<close> on.
\<close>

definition outlook_poll_rest ::
  "(error + graph_message list) \<Rightarrow> outlook_service \<Rightarrow> outlook_service outcome option" where
  "outlook_poll_rest listed s =
     (case listed of
        Inl e \<Rightarrow> Some (Threw e s)
      | Inr messages \<Rightarrow>
          if messages = [] then Some (Returned (log_to NoMatching s))
          else outlook_poll_loop messages s)"

definition outlook_pollInbox ::
  "graph_world \<Rightarrow> outlook_service \<Rightarrow> outlook_service outcome option" where
  "outlook_pollInbox w s =
     (if config s = None then Some (Returned s)
      else (case listUnreadMessages w s of (listed, s1) \<Rightarrow> outlook_poll_rest listed s1))"

definition outlook_tick :: "graph_world \<Rightarrow> outlook_service \<Rightarrow> outlook_service option" where
  "outlook_tick w s = map_option (caught ''Outlook Graph poll failed'') (outlook_pollInbox w s)"

text \<open>
  The cron job and the polls of the Outlook service, as a machine. The callback is that
  of the Gmail service. A poll is suspended at the \<open>fetch\<close> of the token endpoint
  (\<open>AwaitToken\<close>) or at the \<open>fetch\<close> of the listing (\<open>AwaitMessages\<close>); its loop has no
  \<open>await\<close>. \<open>TickAt t\<close> is a tick of the job at the clock \<open>t\<close>: \<open>pollInbox\<close> runs to its first
  \<open>fetch\<close>, that of the listing when the cached token is returned. \<open>TokenAnswer k answer t\<close>
  is the token endpoint answering the suspended poll number \<open>k\<close>, the clock then reading
  \<open>t\<close>; \<open>MessagesAnswer k answer\<close> is the listing answering it.
\<close>

datatype outlook_task = AwaitToken | AwaitMessages

datatype outlook_event =
  TickAt int
  | TokenAnswer nat "error + token_body http_response" int
  | MessagesAnswer nat "error + graph_message list option http_response"

definition outlook_poll_begin ::
  "int \<Rightarrow> outlook_service \<Rightarrow> (outlook_service \<times> outlook_task) option" where
  "outlook_poll_begin t s =
     (if config s = None then None
      else
        (case cachedToken t s of
           Some token \<Rightarrow> Some (call GraphList s, AwaitMessages)
         | None \<Rightarrow> Some (call TokenPost s, AwaitToken)))"

fun outlook_step ::
  "outlook_service \<times> outlook_task list \<Rightarrow> outlook_event
     \<Rightarrow> (outlook_service \<times> outlook_task list) option" where
  "outlook_step (s, tasks) (TickAt t) =
     (case outlook_poll_begin t s of
        None \<Rightarrow> Some (s, tasks)
      | Some (s', task) \<Rightarrow> Some (s', tasks @ [task]))"
| "outlook_step (s, tasks) (TokenAnswer k answer t) =
     (if k < length tasks \<and> tasks ! k = AwaitToken then
        (case token_answer answer t s of
           (Inl e, s') \<Rightarrow>
             Some (log_to (LogError ''Outlook Graph poll failed'' e) s',
                   take k tasks @ drop (Suc k) tasks)
         | (Inr token, s') \<Rightarrow> Some (call GraphList s', tasks[k := AwaitMessages]))
      else Some (s, tasks))"
| "outlook_step (s, tasks) (MessagesAnswer k answer) =
     (if k < length tasks \<and> tasks ! k = AwaitMessages then
        map_option (\<lambda>r. (caught ''Outlook Graph poll failed'' r, take k tasks @ drop (Suc k) tasks))
          (outlook_poll_rest (list_answer answer) s)
      else Some (s, tasks))"

fun outlook_run ::
  "outlook_service \<times> outlook_task list \<Rightarrow> outlook_event list
     \<Rightarrow> (outlook_service \<times> outlook_task list) option" where
  "outlook_run c [] = Some c"
| "outlook_run c (e # es) =
     (case outlook_step c e of None \<Rightarrow> None | Some c' \<Rightarrow> outlook_run c' es)"

section \<open>MailService\<close>

record mail_config =
  imapHost :: string
  imapPort :: number
  imapUser :: string
  imapPass :: string
  mailbox :: string
  smtpHost :: string
  smtpPort :: number
  smtpSecure :: bool
  smtpUser :: string
  smtpPass :: string
  notifyRecipient :: string
  notifyFrom :: string

text \<open>
  An envelope: \<open>sender\<close> is \<open>from?.[0]\<close>, a name and an address, both optional. A fetched
  message: its UID (0 is the falsy UID) and its envelope, if any. The mail that
  \<open>sendNotification\<close> composes.
\<close>

record envelope =
  sender :: "(string option \<times> string option) option"
  subject :: "string option"

record message =
  uid :: int
  envelope :: "envelope option"

record mail =
  mail_from :: string
  mail_to :: string
  mail_subject :: string
  mail_text :: string

text \<open>
  The fields of the class. \<open>imapClient\<close> and \<open>smtpTransport\<close> say whether the object was
  created. \<open>dispatches\<close> is not a field of the class: it is the trace of the calls of
  \<open>sendNotification\<close> made by \<open>handleNewMessages\<close>, each with the message whose envelope
  was passed and whether the call returned (\<open>True\<close>) or threw (\<open>False\<close>).
\<close>

record mail_service = service +
  imapClient :: bool
  smtpTransport :: bool
  shuttingDown :: bool
  lastProcessedUid :: int
  processingMailbox :: bool
  dispatches :: "(message \<times> bool) list"

definition fromDisplay :: "envelope option \<Rightarrow> string" where
  "fromDisplay env =
     (case env of
        None \<Rightarrow> ''unknown sender''
      | Some e \<Rightarrow>
          (case sender e of
             None \<Rightarrow> ''unknown sender''
           | Some (name, address) \<Rightarrow> or_else name (or_else address ''unknown sender'')))"

definition subjectOf :: "envelope option \<Rightarrow> string" where
  "subjectOf env =
     (case env of None \<Rightarrow> ''(no subject)'' | Some e \<Rightarrow> or_else (subject e) ''(no subject)'')"

definition compose :: "mail_config \<Rightarrow> envelope option \<Rightarrow> mail" where
  "compose cfg env =
     \<lparr>mail_from = notifyFrom cfg, mail_to = notifyRecipient cfg,
      mail_subject = ''New email received from '' @ fromDisplay env,
      mail_text = ''You have received a new email from '' @ fromDisplay env
                  @ '' with the subject '' @ [CHR 0x22] @ subjectOf env @ [CHR 0x22] @ ''.''\<rparr>"

text \<open>
  \<open>sendNotification\<close>; \<open>send\<close> is the answer of the transport's \<open>sendMail\<close> to a mail:
  \<open>None\<close> when the mail is delivered, the error of the rejection otherwise.
\<close>

definition sendNotification ::
  "mail_config \<Rightarrow> (mail \<Rightarrow> error option) \<Rightarrow> envelope option \<Rightarrow> mail_service
     \<Rightarrow> mail_service outcome" where
  "sendNotification cfg send env s =
     (if \<not> smtpTransport s then Threw SmtpNotReady s
      else
        (let s1 = log_to (LogInfo (''Forwarding notification for message from ''
                                   @ fromDisplay env)) s
         in case send (compose cfg env) of None \<Rightarrow> Returned s1 | Some e \<Rightarrow> Threw e s1))"

text \<open>
  The mailbox object of the client (\<open>exists\<close>: the number of messages; \<open>uidNext\<close>), and
  what the world answers during one scan: the mailbox object (\<open>None\<close> when
  \<open>imapClient.mailbox\<close> is falsy), the messages that the iterator of \<open>imapClient.fetch\<close>
  yields, the error with which the iterator then throws (if it does), and the transport's
  answers.
\<close>

record mailbox_object =
  exists :: int
  uidNext :: "int option"

record scan_world =
  clientMailbox :: "mailbox_object option"
  fetched :: "message list"
  fetchError :: "error option"
  sendMail :: "mail \<Rightarrow> error option"

text \<open>The \<open>for await\<close> loop of \<open>handleNewMessages\<close>.\<close>

fun handle_loop ::
  "mail_config \<Rightarrow> (mail \<Rightarrow> error option) \<Rightarrow> error option \<Rightarrow> message list \<Rightarrow> mail_service
     \<Rightarrow> mail_service outcome" where
  "handle_loop cfg send fin [] s = (case fin of None \<Rightarrow> Returned s | Some e \<Rightarrow> Threw e s)"
| "handle_loop cfg send fin (m # rest) s =
     (if envelope m = None \<or> uid m = 0 \<or> uid m \<le> lastProcessedUid s
      then handle_loop cfg send fin rest s
      else
        (case sendNotification cfg send (envelope m) s of
           Threw e s' \<Rightarrow> Threw e (s'\<lparr>dispatches := dispatches s' @ [(m, False)]\<rparr>)
         | Returned s' \<Rightarrow>
             handle_loop cfg send fin rest
               (s'\<lparr>dispatches := dispatches s' @ [(m, True)], lastProcessedUid := uid m\<rparr>)))"

text \<open>
  \<open>handleNewMessages\<close>, cut at its first \<open>await\<close>. \<open>handle_begin\<close> runs, with the mailbox
  object that the client holds at that moment, up to the call of \<open>imapClient.fetch\<close>:
  \<open>None\<close> when the method returns at once, the state with the call recorded otherwise. The
  loop runs from there.
\<close>

definition handle_begin :: "mailbox_object option \<Rightarrow> mail_service \<Rightarrow> mail_service option" where
  "handle_begin box s =
     (if \<not> imapClient s then None
      else
        (case box of
           None \<Rightarrow> None
         | Some mb \<Rightarrow>
             (let startUid = lastProcessedUid s + 1 in
              if exists mb = 0 \<or> startUid > (case uidNext mb of None \<Rightarrow> 0 | Some n \<Rightarrow> n)
              then None
              else Some (call (ImapFetch startUid) s))))"

definition handleNewMessages ::
  "mail_config \<Rightarrow> scan_world \<Rightarrow> mail_service \<Rightarrow> mail_service outcome" where
  "handleNewMessages cfg w s =
     (case handle_begin (clientMailbox w) s of
        None \<Rightarrow> Returned s
      | Some s' \<Rightarrow> handle_loop cfg (sendMail w) (fetchError w) (fetched w) s')"

text \<open>
  The handler of the client's \<open>exists\<close> event:
  \<^verbatim>\<open>if (this.processingMailbox) return;
  this.processingMailbox = true;
  await this.handleNewMessages(config).catch(...);
  this.processingMailbox = false;\<close>
  \<open>exists_begin\<close> is the handler up to the call (\<open>None\<close> when it returns at once);
  \<open>exists_finish\<close> is the scan and what follows it.
\<close>

definition exists_begin :: "mail_service \<Rightarrow> mail_service option" where
  "exists_begin s = (if processingMailbox s then None else Some (s\<lparr>processingMailbox := True\<rparr>))"

definition exists_finish :: "mail_config \<Rightarrow> scan_world \<Rightarrow> mail_service \<Rightarrow> mail_service" where
  "exists_finish cfg w s =
     (caught ''Failed to process new message'' (handleNewMessages cfg w s))
       \<lparr>processingMailbox := False\<rparr>"

text \<open>One scan from trigger to end, when no other event comes in between.\<close>

definition scan :: "mail_config \<Rightarrow> scan_world \<Rightarrow> mail_service \<Rightarrow> mail_service" where
  "scan cfg w s = (case exists_begin s of None \<Rightarrow> s | Some s' \<Rightarrow> exists_finish cfg w s')"

fun scans :: "mail_config \<Rightarrow> scan_world list \<Rightarrow> mail_service \<Rightarrow> mail_service" where
  "scans cfg [] s = s"
| "scans cfg (w # ws) s = scans cfg ws (scan cfg w s)"

text \<open>
  The watcher as a machine: the service and the list of the handlers that are suspended
  at their \<open>await\<close>. A handler is suspended with \<open>handleNewMessages\<close> in its loop
  (\<open>Fetching\<close>), the call of \<open>imapClient.fetch\<close> made, or with \<open>handleNewMessages\<close> having
  returned at once (\<open>Returning\<close>). \<open>Exists box\<close> is the client's event, the client holding
  the mailbox object \<open>box\<close>: the handler runs to its \<open>await\<close>. \<open>Completes k fetched fin send\<close>
  is the handler number \<open>k\<close> running on from its \<open>await\<close> to its end: when it was in the
  loop, the iterator yields \<open>fetched\<close> and then ends or throws \<open>fin\<close>, and the transport
  answers \<open>send\<close>. Between the two, the only code of the service that can run is this
  handler for another event, so the loop is taken in one step.
\<close>

datatype mail_task = Returning | Fetching

datatype mail_event =
  Exists "mailbox_object option"
  | Completes nat "message list" "error option" "mail \<Rightarrow> error option"

fun mail_step ::
  "mail_config \<Rightarrow> mail_service \<times> mail_task list \<Rightarrow> mail_event \<Rightarrow> mail_service \<times> mail_task list" where
  "mail_step cfg (s, tasks) (Exists box) =
     (case exists_begin s of
        None \<Rightarrow> (s, tasks)
      | Some s1 \<Rightarrow>
          (case handle_begin box s1 of
             None \<Rightarrow> (s1, tasks @ [Returning])
           | Some s2 \<Rightarrow> (s2, tasks @ [Fetching])))"
| "mail_step cfg (s, tasks) (Completes k ms fin send) =
     (if k < length tasks then
        (case tasks ! k of
           Returning \<Rightarrow> (s\<lparr>processingMailbox := False\<rparr>, take k tasks @ drop (Suc k) tasks)
         | Fetching \<Rightarrow>
             ((caught ''Failed to process new message'' (handle_loop cfg send fin ms s))
                \<lparr>processingMailbox := False\<rparr>,
              take k tasks @ drop (Suc k) tasks))
      else (s, tasks))"

fun mail_run ::
  "mail_config \<Rightarrow> mail_service \<times> mail_task list \<Rightarrow> mail_event list
     \<Rightarrow> mail_service \<times> mail_task list" where
  "mail_run cfg c [] = c"
| "mail_run cfg c (e # es) = mail_run cfg (mail_step cfg c e) es"

section \<open>Start-up\<close>

text \<open>The field initialisers of the three classes.\<close>

definition mail_init :: mail_service where
  "mail_init =
     \<lparr>logger = [], requests = [], imapClient = False, smtpTransport = False,
      shuttingDown = False, lastProcessedUid = 0, processingMailbox = False, dispatches = []\<rparr>"

definition gmail_init :: gmail_service where
  "gmail_init =
     \<lparr>logger = [], requests = [], config = None, cronJob = False, processedQueue = [],
      processedSet = {}, gmail = False\<rparr>"

definition outlook_init :: outlook_service where
  "outlook_init =
     \<lparr>logger = [], requests = [], config = None, cronJob = False, processedQueue = [],
      processedSet = {}, accessToken = None, accessTokenExpiresAtMs = 0\<rparr>"

subsection \<open>MailService.onModuleInit\<close>

definition mail_resolveConfig :: "environment \<Rightarrow> (string \<Rightarrow> number) \<Rightarrow> error + mail_config" where
  "mail_resolveConfig env num =
     (case requireEnv env ''SOURCE_EMAIL'' of
        Inl e \<Rightarrow> Inl e
      | Inr user \<Rightarrow>
          (case requireEnv env ''SOURCE_APP_PASSWORD'' of
             Inl e \<Rightarrow> Inl e
           | Inr pass \<Rightarrow>
               (case requireEnv env ''NOTIFY_RECIPIENT'' of
                  Inl e \<Rightarrow> Inl e
                | Inr recipient \<Rightarrow>
                    Inr \<lparr>imapHost = get_or env ''IMAP_HOST'' ''imap.gmail.com'',
                         imapPort = get_number env num ''IMAP_PORT'' 993,
                         imapUser = user,
                         imapPass = pass,
                         mailbox = get_or env ''GMAIL_MAILBOX'' ''INBOX'',
                         smtpHost = get_or env ''SMTP_HOST'' ''smtp.gmail.com'',
                         smtpPort = get_number env num ''SMTP_PORT'' 465,
                         smtpSecure = (get_or env ''SMTP_SECURE'' ''true'' \<noteq> ''false''),
                         smtpUser = get_or env ''SMTP_USERNAME'' user,
                         smtpPass = get_or env ''SMTP_PASSWORD'' pass,
                         notifyRecipient = recipient,
                         notifyFrom = get_or env ''NOTIFY_FROM'' user\<rparr>)))"

text \<open>
  What the world answers while the mail service starts: \<open>smtpTransport.verify()\<close> and
  \<open>imapClient.connect()\<close> (\<open>None\<close>: resolved), and \<open>imapClient.mailboxOpen\<close> (the
  \<open>uidNext\<close> of the mailbox it returns).
\<close>

record start_world =
  verify :: "error option"
  connect :: "error option"
  mailboxOpen :: "error + int option"

definition bootstrapSmtpTransport :: "start_world \<Rightarrow> mail_service \<Rightarrow> mail_service outcome" where
  "bootstrapSmtpTransport w s =
     (let s1 = s\<lparr>smtpTransport := True\<rparr> in
      case verify w of
        Some e \<Rightarrow> Threw e (log_to (LogError ''SMTP verify failed'' e) s1)
      | None \<Rightarrow> Returned (log_to (LogInfo ''SMTP transport ready'') s1))"

definition startImapWatcher :: "start_world \<Rightarrow> mail_service \<Rightarrow> mail_service outcome" where
  "startImapWatcher w s =
     (let s1 = s\<lparr>imapClient := True\<rparr> in
      case connect w of
        Some e \<Rightarrow> Threw e s1
      | None \<Rightarrow>
          (case mailboxOpen w of
             Inl e \<Rightarrow> Threw e s1
           | Inr next \<Rightarrow>
               Returned (log_to (LogInfo ''Watching mailbox'')
                 (s1\<lparr>lastProcessedUid :=
                       (case next of None \<Rightarrow> 0 | Some n \<Rightarrow> if n = 0 then 0 else n - 1)\<rparr>))))"

definition mail_onModuleInit ::
  "environment \<Rightarrow> (string \<Rightarrow> number) \<Rightarrow> start_world \<Rightarrow> mail_service \<Rightarrow> mail_service outcome" where
  "mail_onModuleInit env num w s =
     (if \<not> isEnabled env ''MAIL_SERVICE_ENABLED''
      then Returned (log_to (LogInfo ''MailService disabled.'') s)
      else
        (case mail_resolveConfig env num of
           Inl e \<Rightarrow> Threw e s
         | Inr watcherConfig \<Rightarrow>
             (case bootstrapSmtpTransport w s of
                Threw e s1 \<Rightarrow> Threw e s1
              | Returned s1 \<Rightarrow>
                  (case startImapWatcher w s1 of
                     Threw e s2 \<Rightarrow> Threw e (log_to (LogError ''Failed to start IMAP watcher'' e) s2)
                   | Returned s2 \<Rightarrow> Returned s2))))"

subsection \<open>The polling services' onModuleInit\<close>

text \<open>
  \<open>registerCronJob\<close> builds a \<open>CronJob\<close> from the expression and adds it to the
  registry; \<open>cron\<close> is what that does for an expression: \<open>None\<close> when the job is
  created and started, the error thrown otherwise.
\<close>

definition registerCronJob ::
  "(string \<Rightarrow> error option) \<Rightarrow> string \<Rightarrow> ('c, 'b) poller_scheme \<Rightarrow> ('c, 'b) poller_scheme outcome" where
  "registerCronJob cron expression s =
     (case cron expression of Some e \<Rightarrow> Threw e s | None \<Rightarrow> Returned (s\<lparr>cronJob := True\<rparr>))"

definition gmail_resolveConfig :: "environment \<Rightarrow> (string \<Rightarrow> number) \<Rightarrow> error + gmail_config" where
  "gmail_resolveConfig env num =
     (case requireEnv env ''GOOGLE_CLIENT_ID'' of
        Inl e \<Rightarrow> Inl e
      | Inr cid \<Rightarrow>
          (case requireEnv env ''GOOGLE_CLIENT_SECRET'' of
             Inl e \<Rightarrow> Inl e
           | Inr secret \<Rightarrow>
               (case requireEnv env ''GOOGLE_REFRESH_TOKEN'' of
                  Inl e \<Rightarrow> Inl e
                | Inr token \<Rightarrow>
                    Inr \<lparr>clientId = cid,
                         clientSecret = secret,
                         cronExpression = get_or env ''GMAIL_CRON_EXPRESSION'' ''*/5 * * * *'',
                         processedCache = get_number env num ''GMAIL_PROCESSED_CACHE'' 100,
                         redirectUri = get_or env ''GOOGLE_REDIRECT_URI''
                                         ''https://developers.google.com/oauthplayground'',
                         refreshToken = token,
                         query = get_or env ''GMAIL_QUERY'' ''is:unread newer_than:1d'',
                         labelIds = filter (\<lambda>l. l \<noteq> [])
                                      (map trim (split_on CHR '','' (get_or env ''GMAIL_LABELS'' ''INBOX,UNREAD''))),
                         maxResults = get_number env num ''GMAIL_MAX_RESULTS'' 10\<rparr>)))"

definition gmail_onModuleInit ::
  "environment \<Rightarrow> (string \<Rightarrow> number) \<Rightarrow> (string \<Rightarrow> error option) \<Rightarrow> gmail_service
     \<Rightarrow> gmail_service outcome" where
  "gmail_onModuleInit env num cron s =
     (if \<not> isEnabled env ''GMAIL_API_ENABLED''
      then Returned (log_to (LogInfo ''Gmail API polling disabled.'') s)
      else
        (case gmail_resolveConfig env num of
           Inl e \<Rightarrow> Returned (log_to (LogError ''Failed to initialize Gmail API poller'' e) s)
         | Inr cfg \<Rightarrow>
             (case registerCronJob cron (cronExpression cfg) (s\<lparr>config := Some cfg, gmail := True\<rparr>) of
                Threw e s1 \<Rightarrow>
                  Returned (log_to (LogError ''Failed to initialize Gmail API poller'' e) s1)
              | Returned s1 \<Rightarrow> Returned (log_to (LogInfo ''Gmail API poller ready'') s1))))"

definition outlook_resolveConfig :: "environment \<Rightarrow> (string \<Rightarrow> number) \<Rightarrow> error + outlook_config" where
  "outlook_resolveConfig env num =
     (case requireEnv env ''OUTLOOK_TENANT_ID'' of
        Inl e \<Rightarrow> Inl e
      | Inr tenant \<Rightarrow>
          (case requireEnv env ''OUTLOOK_CLIENT_ID'' of
             Inl e \<Rightarrow> Inl e
           | Inr cid \<Rightarrow>
               (case requireEnv env ''OUTLOOK_CLIENT_SECRET'' of
                  Inl e \<Rightarrow> Inl e
                | Inr secret \<Rightarrow>
                    (case requireEnv env ''OUTLOOK_USER_ID'' of
                       Inl e \<Rightarrow> Inl e
                     | Inr user \<Rightarrow>
                         Inr \<lparr>clientId = cid,
                              clientSecret = secret,
                              cronExpression = get_or env ''OUTLOOK_CRON_EXPRESSION'' ''*/5 * * * *'',
                              processedCache = get_number env num ''OUTLOOK_PROCESSED_CACHE'' 100,
                              tenantId = tenant,
                              userId = user,
                              folderId = get_or env ''OUTLOOK_FOLDER_ID'' ''inbox'',
                              topN = get_number env num ''OUTLOOK_TOP'' 10\<rparr>))))"

definition outlook_onModuleInit ::
  "environment \<Rightarrow> (string \<Rightarrow> number) \<Rightarrow> (string \<Rightarrow> error option) \<Rightarrow> outlook_service
     \<Rightarrow> outlook_service outcome" where
  "outlook_onModuleInit env num cron s =
     (if \<not> isEnabled env ''OUTLOOK_API_ENABLED''
      then Returned (log_to (LogInfo ''Outlook Graph polling disabled.'') s)
      else
        (case outlook_resolveConfig env num of
           Inl e \<Rightarrow> Returned (log_to (LogError ''Failed to initialize Outlook Graph poller'' e) s)
         | Inr cfg \<Rightarrow>
             (case registerCronJob cron (cronExpression cfg) (s\<lparr>config := Some cfg\<rparr>) of
                Threw e s1 \<Rightarrow>
                  Returned (log_to (LogError ''Failed to initialize Outlook Graph poller'' e) s1)
              | Returned s1 \<Rightarrow> Returned (log_to (LogInfo ''Outlook Graph poller ready'') s1))))"

subsection \<open>main.ts\<close>

text \<open>
  \<open>MailModule\<close> provides \<open>MailService\<close> and \<open>OutlookGraphPollingService\<close>.
  \<open>NestFactory.createApplicationContext\<close> is the framework's: it creates the providers,
  calls the \<open>onModuleInit\<close> of each and waits for them, and its promise rejects when one of
  them rejects. \<open>bootstrap\<close> is \<open>main.ts\<close>: a rejection there is caught by
  \<^verbatim>\<open>bootstrap().catch((err) => { ...; process.exit(1); })\<close>, which ends the
  process, and with it every service.
\<close>

datatype process = Running mail_service outlook_service | Exited int

definition createApplicationContext ::
  "environment \<Rightarrow> (string \<Rightarrow> number) \<Rightarrow> start_world \<Rightarrow> (string \<Rightarrow> error option)
     \<Rightarrow> error + mail_service \<times> outlook_service" where
  "createApplicationContext env num w cron =
     (case mail_onModuleInit env num w mail_init of
        Threw e m \<Rightarrow> Inl e
      | Returned m \<Rightarrow>
          (case outlook_onModuleInit env num cron outlook_init of
             Threw e p \<Rightarrow> Inl e
           | Returned p \<Rightarrow> Inr (m, p)))"

definition bootstrap ::
  "environment \<Rightarrow> (string \<Rightarrow> number) \<Rightarrow> start_world \<Rightarrow> (string \<Rightarrow> error option) \<Rightarrow> process" where
  "bootstrap env num w cron =
     (case createApplicationContext env num w cron of
        Inl e \<Rightarrow> Exited 1
      | Inr (m, p) \<Rightarrow> Running m p)"

section \<open>Invariants and scenarios\<close>

text \<open>
  The invariant the proofs carry: \<open>cache_inv\<close>, and the empty string is not in the set
  (\<open>pollInbox\<close> never passes it to \<open>trackProcessed\<close>).
\<close>

definition cache_ok :: "int \<Rightarrow> ('c, 'b) poller_scheme \<Rightarrow> bool" where
  "cache_ok cap s = (cache_inv cap s \<and> [] \<notin> processedSet s)"

text \<open>
  The services of the scenarios: a Gmail service that has started, with the cache
  capacity \<open>cap\<close> and every other setting at its default.
\<close>

definition gmail_example_config :: "int \<Rightarrow> gmail_config" where
  "gmail_example_config cap =
     \<lparr>clientId = ''id'', clientSecret = ''secret'', cronExpression = ''*/5 * * * *'',
      processedCache = Num cap, redirectUri = ''https://developers.google.com/oauthplayground'',
      refreshToken = ''token'', query = ''is:unread newer_than:1d'',
      labelIds = [''INBOX'', ''UNREAD''], maxResults = Num 10\<rparr>"

definition gmail_started :: "int \<Rightarrow> gmail_service" where
  "gmail_started cap =
     gmail_init\<lparr>config := Some (gmail_example_config cap), cronJob := True, gmail := True\<rparr>"

text \<open>An outlook service that has started, with the default settings.\<close>

definition outlook_example_config :: outlook_config where
  "outlook_example_config =
     \<lparr>clientId = ''id'', clientSecret = ''secret'', cronExpression = ''*/5 * * * *'',
      processedCache = Num 100, tenantId = ''tenant'', userId = ''user@contoso.com'',
      folderId = ''inbox'', topN = Num 10\<rparr>"

definition outlook_started :: outlook_service where
  "outlook_started = outlook_init\<lparr>config := Some outlook_example_config, cronJob := True\<rparr>"

text \<open>The token endpoint answering with the token \<open>t\<close> and the lifetime \<open>n\<close> seconds.\<close>

definition token_ok :: "string \<Rightarrow> int \<Rightarrow> error + token_body http_response" where
  "token_ok t n =
     Inr \<lparr>ok = True, status = 200, bodyText = ''{...}'',
          parsed = Some \<lparr>access_token = Some t, expires_in = Some n\<rparr>\<rparr>"

text \<open>The token endpoint answering with the token \<open>t\<close> and no lifetime.\<close>

definition token_without_lifetime :: "string \<Rightarrow> error + token_body http_response" where
  "token_without_lifetime t =
     Inr \<lparr>ok = True, status = 200, bodyText = ''{...}'',
          parsed = Some \<lparr>access_token = Some t, expires_in = None\<rparr>\<rparr>"

text \<open>
  The exchange fails: \<open>fetch\<close> rejects, the response is not OK, its text is not JSON, or
  the body has no (or an empty) \<open>access_token\<close>.
\<close>

definition exchange_fails :: "graph_world \<Rightarrow> bool" where
  "exchange_fails w =
     (case tokenResponse w of
        Inl e \<Rightarrow> True
      | Inr response \<Rightarrow>
          \<not> ok response \<or>
          (case parsed response of
             None \<Rightarrow> True
           | Some body \<Rightarrow> \<not> truthy (access_token body)))"

text \<open>
  On the trace of \<open>sendNotification\<close> calls: the messages delivered, and the property that
  every call was for a UID above the cursor of that moment, the cursor starting at \<open>c\<close>
  and moving to the UID of each message delivered.
\<close>

definition delivered :: "(message \<times> bool) list \<Rightarrow> message list" where
  "delivered tr = map fst (filter snd tr)"

fun above_cursor :: "int \<Rightarrow> (message \<times> bool) list \<Rightarrow> bool" where
  "above_cursor c [] = True"
| "above_cursor c ((m, sent) # tr) = (c < uid m \<and> above_cursor (if sent then uid m else c) tr)"

text \<open>
  The mail service of the scenarios: started, both objects created, the cursor at \<open>c\<close>;
  a message with a UID and a subject; a mailbox that has messages.
\<close>

definition mail_example_config :: mail_config where
  "mail_example_config =
     \<lparr>imapHost = ''imap.gmail.com'', imapPort = Num 993, imapUser = ''me@example.org'',
      imapPass = ''pass'', mailbox = ''INBOX'', smtpHost = ''smtp.gmail.com'', smtpPort = Num 465,
      smtpSecure = True, smtpUser = ''me@example.org'', smtpPass = ''pass'',
      notifyRecipient = ''you@example.org'', notifyFrom = ''me@example.org''\<rparr>"

definition mail_started :: "int \<Rightarrow> mail_service" where
  "mail_started c = mail_init\<lparr>imapClient := True, smtpTransport := True, lastProcessedUid := c\<rparr>"

definition msg :: "int \<Rightarrow> string \<Rightarrow> message" where
  "msg u subj = \<lparr>uid = u, envelope = Some \<lparr>sender = None, subject = Some subj\<rparr>\<rparr>"

text \<open>
  Scenario C of the specification: three polls that list \<open>[A, B]\<close>, \<open>[B, C]\<close> and
  \<open>[A, D]\<close>, every \<open>messages.get\<close> answering (with no headers).
\<close>

definition scenario_C ::
  "((error + string option list option) \<times> (string \<Rightarrow> error + header list)) list" where
  "scenario_C =
     [(Inr (Some [Some ''A'', Some ''B'']), \<lambda>i. Inr []),
      (Inr (Some [Some ''B'', Some ''C'']), \<lambda>i. Inr []),
      (Inr (Some [Some ''A'', Some ''D'']), \<lambda>i. Inr [])]"

text \<open>
  A poll that lists \<open>[A, B, C]\<close>, and a backend whose \<open>messages.get\<close> rejects for \<open>B\<close>;
  the state of the service when the loop of that poll has dealt with \<open>A\<close>.
\<close>

definition listing_ABC :: "error + string option list option" where
  "listing_ABC = Inr (Some [Some ''A'', Some ''B'', Some ''C''])"

definition failing_get :: "string \<Rightarrow> error + header list" where
  "failing_get i = (if i = ''B'' then Inl (Rejected ''get failed'') else Inr [])"

definition after_A :: gmail_service where
  "after_A =
     (gmail_started 100)
       \<lparr>logger := [Detected ''A'' ''unknown sender'' ''(no subject)''],
        requests := [MessagesList, MessagesGet ''A''],
        processedQueue := [''A''], processedSet := {''A''}\<rparr>"

text \<open>The Gmail service after the tick whose poll failed at \<open>B\<close>.\<close>

definition after_failed_poll :: gmail_service where
  "after_failed_poll =
     (gmail_started 100)
       \<lparr>logger := [Detected ''A'' ''unknown sender'' ''(no subject)'',
                   LogError ''Gmail API poll failed'' (Rejected ''get failed'')],
        requests := [MessagesList, MessagesGet ''A'', MessagesGet ''B''],
        processedQueue := [''A''], processedSet := {''A''}\<rparr>"

text \<open>
  Scenarios A and B of the specification: the cursor at 10, a mailbox whose fetch yields
  the messages 11, 12 and 13; a transport that rejects the mail for one subject; the
  state of the service when the loop has dealt with message 11.
\<close>

definition reject_subject :: "string \<Rightarrow> mail \<Rightarrow> error option" where
  "reject_subject subj ml =
     (if mail_text ml
           = mail_text (compose mail_example_config (Some \<lparr>sender = None, subject = Some subj\<rparr>))
      then Some (Rejected ''send failed'') else None)"

definition inbox_11_13 :: "(mail \<Rightarrow> error option) \<Rightarrow> scan_world" where
  "inbox_11_13 send =
     \<lparr>clientMailbox = Some \<lparr>exists = 13, uidNext = Some 14\<rparr>,
      fetched = [msg 11 ''eleven'', msg 12 ''twelve'', msg 13 ''thirteen''],
      fetchError = None, sendMail = send\<rparr>"

definition after_11 :: mail_service where
  "after_11 =
     (mail_started 10)
       \<lparr>logger := [LogInfo ''Forwarding notification for message from unknown sender''],
        dispatches := [(msg 11 ''eleven'', True)], lastProcessedUid := 11\<rparr>"

text \<open>The mail service when the scan of scenario B has thrown at message 12.\<close>

definition failed_at_12 :: mail_service where
  "failed_at_12 =
     (mail_started 10)
       \<lparr>logger := [LogInfo ''Forwarding notification for message from unknown sender'',
                   LogInfo ''Forwarding notification for message from unknown sender''],
        requests := [ImapFetch 11], lastProcessedUid := 11, processingMailbox := True,
        dispatches := [(msg 11 ''eleven'', True), (msg 12 ''twelve'', False)]\<rparr>"

text \<open>
  Scenario D of the specification: an exchange at the instant \<open>T0\<close> (in milliseconds) that
  returns a token with a lifetime of 3600 seconds. \<open>at_time t answer\<close> is the world in
  which the clock reads \<open>t\<close> and the token endpoint gives \<open>answer\<close>; \<open>token_refused\<close> is
  the endpoint answering 401.
\<close>

definition at_time :: "int \<Rightarrow> (error + token_body http_response) \<Rightarrow> graph_world" where
  "at_time t answer =
     \<lparr>now = t, tokenResponse = answer, nowAfter = t,
      listResponse = Inl (Rejected ''not asked'')\<rparr>"

definition T0 :: int where
  "T0 = 1700000000000"

definition token_at_T0 :: outlook_service where
  "token_at_T0 = snd (getAccessToken (at_time T0 (token_ok ''first'' 3600)) outlook_started)"

definition token_refused :: "error + token_body http_response" where
  "token_refused = Inr \<lparr>ok = False, status = 401, bodyText = ''unauthorized'', parsed = None\<rparr>"

text \<open>
  The invariant of the watcher's machine: at most one handler is suspended, and one is
  suspended exactly when \<open>processingMailbox\<close> is set.
\<close>

definition guard_inv :: "mail_service \<times> mail_task list \<Rightarrow> bool" where
  "guard_inv c = (length (snd c) = (if processingMailbox (fst c) then 1 else 0))"

text \<open>
  An environment that enables the mail service and the Outlook service and has the four
  settings that the Outlook service requires, but not \<open>SOURCE_EMAIL\<close>; a world in which
  the SMTP and IMAP servers answer.
\<close>

definition env_without_source_email :: environment where
  "env_without_source_email =
     map_of [(''MAIL_SERVICE_ENABLED'', ''true''), (''OUTLOOK_API_ENABLED'', ''true''),
             (''OUTLOOK_TENANT_ID'', ''tenant''), (''OUTLOOK_CLIENT_ID'', ''id''),
             (''OUTLOOK_CLIENT_SECRET'', ''secret''), (''OUTLOOK_USER_ID'', ''user@contoso.com'')]"

definition world_up :: start_world where
  "world_up = \<lparr>verify = None, connect = None, mailboxOpen = Inr (Some 11)\<rparr>"

text \<open>
  A poll that lists \<open>[A, B]\<close>, and two \<open>exists\<close> events one after the other.
\<close>

definition listing_AB :: "error + string option list option" where
  "listing_AB = Inr (Some [Some ''A'', Some ''B''])"

definition two_events :: "mail_event list" where
  "two_events =
     [Exists (Some \<lparr>exists = 13, uidNext = Some 14\<rparr>),
      Exists (Some \<lparr>exists = 14, uidNext = Some 15\<rparr>)]"

section \<open>Properties of the cache of processed identifiers\<close>

subsection \<open>The eviction loop returns exactly when the capacity is not a negative number\<close>

lemma evict_returns:
  "0 \<le> cap \<Longrightarrow>
   evict (Num cap) (q, S) =
     Some (drop (length q - nat cap) q,
           S - {x \<in> set (take (length q - nat cap) q). x \<noteq> []})"
proof (induction q arbitrary: S)
  case Nil
  then show ?case by (subst evict.simps) simp
next
  case (Cons x r)
  show ?case
  proof (cases "int (length (x # r)) > cap")
    case False
    then have "length (x # r) - nat cap = 0" by simp
    with False show ?thesis by (subst evict.simps) simp
  next
    case True
    then have k: "Suc (length r) - nat cap = Suc (length r - nat cap)"
      using Cons.prems by simp
    show ?thesis
      using True Cons.IH [OF Cons.prems] Cons.prems
      by (subst evict.simps) (auto simp: k)
  qed
qed

lemma evict_returns_only_nonneg:
  "evict cap qs = Some r \<Longrightarrow> \<not> exceeds 0 cap"
proof (induction rule: evict.raw_induct[rotated 1, consumes 1])
  case (1 ev cap qs r)
  show ?case
  proof (cases "exceeds (length (fst qs)) cap")
    case True
    with "1"(2) obtain qs' where "ev cap qs' = Some r"
      by (cases "fst qs") auto
    then show ?thesis by (rule "1"(1))
  next
    case False
    then show ?thesis by (cases cap) auto
  qed
qed

lemma evict_negative: "n < 0 \<Longrightarrow> evict (Num n) qs = None"
  using evict_returns_only_nonneg [of "Num n" qs] by (cases "evict (Num n) qs") auto

lemma evict_nan: "evict NaN qs = Some qs"
  by (subst evict.simps) simp

subsection \<open>The cache after a call of trackProcessed\<close>

lemma set_minus_take:
  "distinct xs \<Longrightarrow> set xs - set (take k xs) = set (drop k xs)"
proof -
  assume d: "distinct xs"
  have "distinct (take k xs @ drop k xs)" using d by simp
  then have "set (take k xs) \<inter> set (drop k xs) = {}" by (simp only: distinct_append)
  moreover have "set xs = set (take k xs) \<union> set (drop k xs)"
    by (metis append_take_drop_id set_append)
  ultimately show ?thesis by auto
qed

lemma evict_fresh:
  assumes "0 \<le> cap" "distinct q" "[] \<notin> set q"
  shows "evict (Num cap) (q, set q) = Some (drop (length q - nat cap) q, set (drop (length q - nat cap) q))"
proof -
  have "{x \<in> set (take (length q - nat cap) q). x \<noteq> []} = set (take (length q - nat cap) q)"
    using assms(3) by (auto dest: in_set_takeD)
  then show ?thesis
    using evict_returns [OF assms(1), of q "set q"] set_minus_take [OF assms(2)] by simp
qed

lemma trackProcessed_present:
  "i \<in> processedSet s \<Longrightarrow> trackProcessed i s = Some s"
  by (simp add: trackProcessed_def split: option.splits)

lemma trackProcessed_new:
  assumes cfg: "config s = Some cfg" and num: "processedCache cfg = Num n" and cap: "0 \<le> n"
    and ok: "cache_ok n s" and i: "i \<noteq> []" "i \<notin> processedSet s"
  shows "trackProcessed i s =
           Some (s\<lparr>processedQueue :=
                     (if int (length (processedQueue s)) < n
                      then processedQueue s @ [i] else tl (processedQueue s @ [i])),
                   processedSet :=
                     set (if int (length (processedQueue s)) < n
                          then processedQueue s @ [i] else tl (processedQueue s @ [i]))\<rparr>)"
proof -
  let ?q = "processedQueue s @ [i]"
  from ok have inv: "int (length (processedQueue s)) \<le> n"
    "distinct (processedQueue s)" "set (processedQueue s) = processedSet s"
    "[] \<notin> processedSet s"
    by (simp_all add: cache_ok_def cache_inv_def)
  have d: "distinct ?q" "[] \<notin> set ?q" "set ?q = insert i (processedSet s)"
    using inv i by auto
  have k: "drop (length ?q - nat n) ?q =
           (if int (length (processedQueue s)) < n then ?q else tl ?q)"
  proof (cases "int (length (processedQueue s)) < n")
    case True
    then have "length ?q - nat n = 0" by simp
    with True show ?thesis by simp
  next
    case False
    with inv(1) cap have one: "length ?q - nat n = 1" by simp
    have "drop 1 ?q = tl ?q" by (simp only: One_nat_def drop_Suc drop_0)
    with False show ?thesis by (simp only: one if_False)
  qed
  have "evict (Num n) (?q, insert i (processedSet s)) =
        Some (drop (length ?q - nat n) ?q,
              set (drop (length ?q - nat n) ?q))"
    using evict_fresh [OF cap d(1) d(2)] d(3) by simp
  then show ?thesis
    using cfg num i(2) unfolding k by (simp add: trackProcessed_def)
qed

lemma trackProcessed_ok:
  assumes cfg: "config s = Some cfg" and num: "processedCache cfg = Num n" and cap: "0 \<le> n"
    and ok: "cache_ok n s" and i: "i \<noteq> []"
  shows "\<exists>s'. trackProcessed i s = Some s' \<and> config s' = Some cfg
              \<and> cache_ok n s'"
proof (cases "i \<in> processedSet s")
  case True
  then show ?thesis using cfg ok by (simp add: trackProcessed_present)
next
  case False
  define q where "q = (if int (length (processedQueue s)) < n
                       then processedQueue s @ [i] else tl (processedQueue s @ [i]))"
  from ok have inv: "int (length (processedQueue s)) \<le> n"
    "distinct (processedQueue s)" "set (processedQueue s) = processedSet s"
    "[] \<notin> processedSet s"
    by (simp_all add: cache_ok_def cache_inv_def)
  have d: "distinct (processedQueue s @ [i])" "[] \<notin> set (processedQueue s @ [i])"
    using inv i False by auto
  have q1: "distinct q"
    using d(1) distinct_tl [OF d(1)] unfolding q_def by (simp only: split: if_split) blast
  have q2: "[] \<notin> set q"
  proof (cases "int (length (processedQueue s)) < n")
    case True
    then have "q = processedQueue s @ [i]" by (simp add: q_def)
    then show ?thesis using d(2) by blast
  next
    case False
    then have "q = tl (processedQueue s @ [i])" by (simp add: q_def)
    then show ?thesis using d(2) list.set_sel(2) [of "processedQueue s @ [i]" "[]"] by blast
  qed
  have q3: "int (length q) \<le> n"
    using inv(1) unfolding q_def by (simp split: if_split)
  have "trackProcessed i s = Some (s\<lparr>processedQueue := q, processedSet := set q\<rparr>)"
    using trackProcessed_new [OF cfg num cap ok i False] unfolding q_def .
  moreover have "config (s\<lparr>processedQueue := q, processedSet := set q\<rparr>) = Some cfg"
    using cfg by simp
  moreover have "cache_ok n (s\<lparr>processedQueue := q, processedSet := set q\<rparr>)"
    using q1 q2 q3 by (simp add: cache_ok_def cache_inv_def)
  ultimately show ?thesis by blast
qed

lemma trackAll_ok:
  assumes cfg: "config s = Some cfg" and num: "processedCache cfg = Num n" and cap: "0 \<le> n"
    and ok: "cache_ok n s" and ids: "\<forall>i\<in>set ids. i \<noteq> []"
  shows "\<exists>s'. trackAll ids s = Some s' \<and> config s' = Some cfg
              \<and> cache_ok n s'"
  using cfg ok ids
proof (induction ids arbitrary: s)
  case Nil
  then show ?case by simp
next
  case (Cons i ids)
  from Cons.prems obtain s1 where s1: "trackProcessed i s = Some s1" "config s1 = Some cfg"
      "cache_ok n s1"
    using trackProcessed_ok [OF Cons.prems(1) num cap Cons.prems(2), of i] by auto
  from Cons.IH [OF s1(2) s1(3)] Cons.prems(3) s1(1) show ?case by simp
qed

lemma cache_ok_fresh:
  "processedQueue s = [] \<Longrightarrow> processedSet s = {} \<Longrightarrow> 0 \<le> cap \<Longrightarrow> cache_ok cap s"
  by (simp add: cache_ok_def cache_inv_def)

text \<open>
  Claim C3, as stated, fails. With the capacity \<open>-1\<close> the first call of \<open>trackProcessed\<close>
  does not return: the loop empties the queue and goes on for ever, the length 0 being
  above \<open>-1\<close>. With a capacity that is not a number nothing is ever evicted: three
  insertions leave three identifiers in the cache. With the empty string as an identifier
  the set and the queue come apart: at capacity 1, after \<open>""\<close> and then \<open>A\<close>, the queue is
  \<open>[A]\<close> and the set still holds \<open>""\<close> (\<open>pollInbox\<close> never makes this call).
\<close>

theorem dedup_cache_counterexample:
  "trackProcessed ''A'' (gmail_started (-1)) = None
   \<and> map_option processedQueue
       (trackAll [''A'', ''B'', ''C'']
          (gmail_init\<lparr>config := Some ((gmail_example_config 2)\<lparr>processedCache := NaN\<rparr>)\<rparr>))
     = Some [''A'', ''B'', ''C'']
   \<and> map_option (\<lambda>s. (processedQueue s, [] \<in> processedSet s))
       (trackAll [[], ''A''] (gmail_started 1))
     = Some ([''A''], True)"
proof (intro conjI)
  show "trackProcessed ''A'' (gmail_started (-1)) = None"
    by (simp add: trackProcessed_def gmail_started_def gmail_init_def gmail_example_config_def
        evict_negative)
  show "map_option processedQueue
       (trackAll [''A'', ''B'', ''C'']
          (gmail_init\<lparr>config := Some ((gmail_example_config 2)\<lparr>processedCache := NaN\<rparr>)\<rparr>))
     = Some [''A'', ''B'', ''C'']"
    by code_simp
  show "map_option (\<lambda>s. (processedQueue s, [] \<in> processedSet s))
       (trackAll [[], ''A''] (gmail_started 1))
     = Some ([''A''], True)"
    by code_simp
qed

text \<open>
  Claim C3, as amended. Start from a service with an empty cache and a configuration
  whose capacity is a number \<open>N\<close> that is not negative, and call \<open>trackProcessed\<close> with any
  sequence \<open>ids\<close> of non-empty identifiers (the only ones \<open>pollInbox\<close> passes) and then
  with one more, \<open>i\<close>. Every call returns. Before and after the last call the queue holds
  at most \<open>N\<close> identifiers, none of them twice, and the set holds exactly the elements of
  the queue (\<open>cache_inv\<close>). The last call changes nothing when \<open>i\<close> is in the cache (a
  second sight of an identifier does not move it in the queue); otherwise it appends \<open>i\<close>
  to the queue, and when the queue was full it removes the head of the queue, the
  identifier that was inserted first among those still there. Since \<open>ids\<close> is any
  sequence, this holds after each operation of every sequence.
\<close>

theorem dedup_cache_bounded_fifo:
  assumes "config s0 = Some cfg" and "processedQueue s0 = []" and "processedSet s0 = {}"
    and "processedCache cfg = Num n" and "0 \<le> n" and "[] \<notin> set ids" and "i \<noteq> []"
  shows "\<exists>s s'. trackAll ids s0 = Some s \<and> trackProcessed i s = Some s'
           \<and> cache_inv n s \<and> cache_inv n s'
           \<and> (if i \<in> processedSet s then s' = s
               else processedQueue s' =
                      (if int (length (processedQueue s)) < n
                       then processedQueue s @ [i] else tl (processedQueue s @ [i])))"
proof -
  have ids: "\<forall>j\<in>set ids. j \<noteq> []" using assms(6) by blast
  have "cache_ok n s0"
    using assms(2,3,5) by (rule cache_ok_fresh)
  from trackAll_ok [OF assms(1) assms(4) assms(5) this ids]
  obtain s where s: "trackAll ids s0 = Some s" "config s = Some cfg"
      "cache_ok n s" by blast
  from trackProcessed_ok [OF s(2) assms(4) assms(5) s(3) assms(7)]
  obtain s' where s': "trackProcessed i s = Some s'" "cache_ok n s'"
    by blast
  have fifo: "if i \<in> processedSet s then s' = s
              else processedQueue s' =
                     (if int (length (processedQueue s)) < n
                      then processedQueue s @ [i] else tl (processedQueue s @ [i]))"
  proof (cases "i \<in> processedSet s")
    case True
    then show ?thesis using s'(1) by (simp add: trackProcessed_present)
  next
    case False
    then show ?thesis
      using trackProcessed_new [OF s(2) assms(4) assms(5) s(3) assms(7) False] s'(1) by simp
  qed
  show ?thesis
    using s(1) s'(1) s(3) s'(2) fifo unfolding cache_ok_def by blast
qed

theorem dedup_cache_bounded_fifo_witness:
  "\<exists>s s'. trackAll [''A'', ''B''] (gmail_started 2) = Some s \<and> trackProcessed ''C'' s = Some s'
           \<and> cache_inv 2 s \<and> cache_inv 2 s'
           \<and> (if ''C'' \<in> processedSet s then s' = s
               else processedQueue s' =
                      (if int (length (processedQueue s)) < 2
                       then processedQueue s @ [''C''] else tl (processedQueue s @ [''C''])))"
  by (rule dedup_cache_bounded_fifo [where cfg = "gmail_example_config 2"])
     (simp_all add: gmail_started_def gmail_init_def gmail_example_config_def)

section \<open>Properties of a poll\<close>

lemma gmail_poll_loop_append:
  "gmail_poll_loop g (xs @ ys) s =
     (case gmail_poll_loop g xs s of
        Some (Returned s1) \<Rightarrow> gmail_poll_loop g ys s1
      | r \<Rightarrow> r)"
  by (induction g xs s rule: gmail_poll_loop.induct)
     (simp_all split: outcome.splits option.splits)

lemma trackProcessed_shape:
  "trackProcessed i s = Some s' \<Longrightarrow> \<exists>q S. s' = s\<lparr>processedQueue := q, processedSet := S\<rparr>"
proof (cases "config s")
  case None
  assume "trackProcessed i s = Some s'"
  with None have "s' = s" by (simp add: trackProcessed_def)
  then have "s' = s\<lparr>processedQueue := processedQueue s, processedSet := processedSet s\<rparr>"
    by simp
  then show ?thesis by blast
next
  case (Some cfg)
  assume t: "trackProcessed i s = Some s'"
  show ?thesis
  proof (cases "i \<in> processedSet s")
    case True
    with t Some have "s' = s" by (simp add: trackProcessed_def)
    then have "s' = s\<lparr>processedQueue := processedQueue s, processedSet := processedSet s\<rparr>"
      by simp
    then show ?thesis by blast
  next
    case False
    with t Some show ?thesis by (auto simp: trackProcessed_def)
  qed
qed

lemma inspectMessage_keeps:
  "gmail (state_of (inspectMessage g i s)) = gmail s
   \<and> config (state_of (inspectMessage g i s)) = config s
   \<and> processedSet (state_of (inspectMessage g i s)) = processedSet s
   \<and> processedQueue (state_of (inspectMessage g i s)) = processedQueue s"
  by (simp add: inspectMessage_def inspect_begin_def inspect_resume_def call_def log_to_def
      Let_def split: sum.splits)

lemma gmail_poll_loop_keeps_gmail:
  "gmail_poll_loop g xs s = Some r \<Longrightarrow> gmail (state_of r) = gmail s"
proof (induction g xs s arbitrary: r rule: gmail_poll_loop.induct)
  case (1 g s)
  then show ?case by auto
next
  case (2 g rest s)
  then show ?case by simp
next
  case (3 g i rest s)
  show ?case
  proof (cases "i = [] \<or> i \<in> processedSet s")
    case True
    with 3 show ?thesis by simp
  next
    case False
    show ?thesis
    proof (cases "inspectMessage g i s")
      case (Threw e s')
      with False 3 inspectMessage_keeps [of g i s] show ?thesis by auto
    next
      case (Returned s')
      with 3(3) False obtain s'' where t: "trackProcessed i s' = Some s''"
        and l: "gmail_poll_loop g rest s'' = Some r"
        by (auto split: option.splits)
      have "gmail s'' = gmail s'"
        using trackProcessed_shape [OF t] by auto
      moreover have "gmail s' = gmail s" using inspectMessage_keeps [of g i s] Returned by simp
      moreover have "gmail (state_of r) = gmail s''"
        using "3.IH"(2) [OF False Returned t l] .
      ultimately show ?thesis by simp
    qed
  qed
qed

lemma gmail_pollInbox_loop:
  "gmail s \<Longrightarrow> config s \<noteq> None \<Longrightarrow> ms \<noteq> [] \<Longrightarrow>
   gmail_pollInbox (Inr (Some ms)) g s = gmail_poll_loop g ms (call MessagesList s)"
  by (auto simp: gmail_pollInbox_def gmail_poll_begin_def gmail_poll_resume_def)

text \<open>
  A poll returns: with a capacity that is not negative, the loop of \<open>pollInbox\<close>, and the
  whole tick, end (they return or throw) and keep the invariant of the cache.
\<close>

lemma inspectMessage_cache_ok:
  "cache_ok cap s \<Longrightarrow> cache_ok cap (state_of (inspectMessage g i s))"
  using inspectMessage_keeps [of g i s] by (simp add: cache_ok_def cache_inv_def)

lemma gmail_poll_loop_returns:
  assumes num: "processedCache cfg = Num n" and cap: "0 \<le> n"
  shows "config s = Some cfg \<Longrightarrow> cache_ok n s \<Longrightarrow>
         \<exists>r. gmail_poll_loop g entries s = Some r \<and> config (state_of r) = Some cfg
              \<and> cache_ok n (state_of r)"
proof (induction g entries s rule: gmail_poll_loop.induct)
  case (1 g s)
  then show ?case by simp
next
  case (2 g rest s)
  then show ?case by simp
next
  case (3 g i rest s)
  show ?case
  proof (cases "i = [] \<or> i \<in> processedSet s")
    case True
    with 3 show ?thesis by simp
  next
    case False
    note keeps = inspectMessage_keeps [of g i s]
    show ?thesis
    proof (cases "inspectMessage g i s")
      case (Threw e s')
      with False keeps "3.prems" inspectMessage_cache_ok [OF "3.prems"(2), of g i]
      show ?thesis by simp
    next
      case (Returned s')
      with keeps "3.prems" inspectMessage_cache_ok [OF "3.prems"(2), of g i]
      have s': "config s' = Some cfg" "cache_ok n s'" by simp_all
      from False have i: "i \<noteq> []" by simp
      from trackProcessed_ok [OF s'(1) num cap s'(2) i] obtain s'' where
        t: "trackProcessed i s' = Some s''" "config s'' = Some cfg"
           "cache_ok n s''" by blast
      from "3.IH"(2) [OF False Returned t(1) t(2) t(3)] False Returned t(1)
      show ?thesis by simp
    qed
  qed
qed

lemma gmail_tick_returns:
  assumes num: "processedCache cfg = Num n" and cap: "0 \<le> n" and "config s = Some cfg"
    and "cache_ok n s"
  shows "\<exists>s'. gmail_tick listing g s = Some s' \<and> config s' = Some cfg
              \<and> cache_ok n s'"
proof (cases "gmail_poll_begin s")
  case None
  then show ?thesis using assms by (simp add: gmail_tick_def gmail_pollInbox_def)
next
  case (Some s1)
  then have s1: "s1 = call MessagesList s" by (simp add: gmail_poll_begin_def split: if_splits)
  have ok1: "config s1 = Some cfg" "cache_ok n s1"
    using assms(3,4) by (simp_all add: s1 call_def cache_ok_def cache_inv_def)
  have lg: "cache_ok n (log_to l t) = cache_ok n t"
    "config (log_to l t) = config t" for l and t :: gmail_service
    by (simp_all add: log_to_def cache_ok_def cache_inv_def)
  have "\<exists>r. gmail_poll_resume listing g s1 = Some r \<and> config (state_of r) = Some cfg
           \<and> cache_ok n (state_of r)"
  proof (cases listing)
    case (Inl e)
    then show ?thesis using ok1 by (simp add: gmail_poll_resume_def)
  next
    case (Inr ms)
    show ?thesis
    proof (cases "(case ms of None \<Rightarrow> [] | Some l \<Rightarrow> l) = []")
      case True
      with Inr ok1 lg show ?thesis by (simp add: gmail_poll_resume_def)
    next
      case False
      with Inr gmail_poll_loop_returns [OF num cap ok1, of g "case ms of None \<Rightarrow> [] | Some l \<Rightarrow> l"]
      show ?thesis by (simp add: gmail_poll_resume_def)
    qed
  qed
  then obtain r where r: "gmail_poll_resume listing g s1 = Some r" "config (state_of r) = Some cfg"
    "cache_ok n (state_of r)" by blast
  have "config (caught m r) = Some cfg \<and> cache_ok n (caught m r)" for m
    using r(2,3) lg by (cases r) simp_all
  then show ?thesis using Some r(1) by (simp add: gmail_tick_def gmail_pollInbox_def)
qed

lemma notified_append: "notified (xs @ ys) = notified xs @ notified ys"
  by (induction xs rule: notified.induct) simp_all

lemma outlook_poll_loop_never_throws:
  "outlook_poll_loop messages p \<noteq> Some (Threw e p')"
  by (induction messages p rule: outlook_poll_loop.induct) (simp_all split: option.splits)

lemma inspectMessage_keeps_cronJob:
  "cronJob (state_of (inspectMessage g i s)) = cronJob s"
  by (simp add: inspectMessage_def inspect_begin_def inspect_resume_def call_def log_to_def
      Let_def split: sum.splits)

lemma gmail_poll_loop_keeps_config:
  "gmail_poll_loop g xs s = Some r \<Longrightarrow>
   config (state_of r) = config s \<and> cronJob (state_of r) = cronJob s"
proof (induction g xs s arbitrary: r rule: gmail_poll_loop.induct)
  case (1 g s)
  then show ?case by auto
next
  case (2 g rest s)
  then show ?case by simp
next
  case (3 g i rest s)
  show ?case
  proof (cases "i = [] \<or> i \<in> processedSet s")
    case True
    with 3 show ?thesis by simp
  next
    case False
    show ?thesis
    proof (cases "inspectMessage g i s")
      case (Threw e s')
      with False 3 inspectMessage_keeps [of g i s] inspectMessage_keeps_cronJob [of g i s]
      show ?thesis by auto
    next
      case (Returned s')
      with 3(3) False obtain s'' where t: "trackProcessed i s' = Some s''"
        and l: "gmail_poll_loop g rest s'' = Some r"
        by (auto split: option.splits)
      have "config s'' = config s' \<and> cronJob s'' = cronJob s'"
        using trackProcessed_shape [OF t] by auto
      moreover have "config s' = config s \<and> cronJob s' = cronJob s"
        using inspectMessage_keeps [of g i s] inspectMessage_keeps_cronJob [of g i s] Returned
        by simp
      moreover have "config (state_of r) = config s'' \<and> cronJob (state_of r) = cronJob s''"
        using "3.IH"(2) [OF False Returned t l] .
      ultimately show ?thesis by simp
    qed
  qed
qed

text \<open>
  Claim C5, as amended. In the Gmail service the dispatch of an item is \<open>inspectMessage\<close>.
  When the loop of a poll has dealt with the entries \<open>pre\<close> and comes to a new identifier
  \<open>i\<close> for which \<open>messages.get\<close> rejects, \<open>pollInbox\<close> throws there: \<open>trackProcessed\<close> is
  not called, \<open>i\<close> is not in the cache, the queue is as it was before \<open>i\<close>, and the entries
  \<open>rest\<close> listed after \<open>i\<close> are not looked at (the result does not depend on them); the
  callback of the cron job logs the error. The notification is not dropped: in any later
  poll, of any listing and with any backend \<open>g2\<close>, whose loop comes to \<open>i\<close> while \<open>i\<close> is
  still not in the cache, \<open>inspectMessage\<close> is called for \<open>i\<close> again, and when
  \<open>messages.get\<close> now answers the notification of \<open>i\<close> is logged, \<open>i\<close> is inserted and the
  poll goes on with the entries after it. The loop of the Outlook service has no
  dispatch that can fail: it never throws.
\<close>

theorem failed_inspection_aborts_poll:
  assumes "gmail s" and "config s \<noteq> None"
    and "gmail_poll_loop g pre (call MessagesList s) = Some (Returned s1)"
    and "i \<noteq> []" and "i \<notin> processedSet s1" and "g i = Inl e"
  shows "gmail_pollInbox (Inr (Some (pre @ Some i # rest))) g s
           = Some (Threw e (call (MessagesGet i) s1))
         \<and> i \<notin> processedSet (call (MessagesGet i) s1)
         \<and> processedQueue (call (MessagesGet i) s1) = processedQueue s1
         \<and> gmail_tick (Inr (Some (pre @ Some i # rest))) g s
             = Some (log_to (LogError ''Gmail API poll failed'' e) (call (MessagesGet i) s1))
         \<and> (gmail_tick (Inr (Some (pre @ Some i # rest))) g s = Some s2
              \<and> gmail_poll_loop g2 pre2 (call MessagesList s2) = Some (Returned s3)
              \<and> i \<notin> processedSet s3 \<and> g2 i = Inr hs
            \<longrightarrow> (\<exists>s4. inspectMessage g2 i s3 = Returned s4
                   \<and> requests s4 = requests s3 @ [MessagesGet i]
                   \<and> notified (logger s4) = notified (logger s3) @ [i]
                   \<and> gmail_pollInbox (Inr (Some (pre2 @ Some i # rest2))) g2 s2
                       = (case trackProcessed i s4 of
                            None \<Rightarrow> None
                          | Some s5 \<Rightarrow> gmail_poll_loop g2 rest2 s5)))
         \<and> outlook_poll_loop messages p \<noteq> Some (Threw e' p')"
proof -
  let ?L = "Inr (Some (pre @ Some i # rest))"
  have g1: "gmail s1"
    using gmail_poll_loop_keeps_gmail [OF assms(3)] assms(1) by (simp add: call_def)
  have "inspectMessage g i s1 = Threw e (call (MessagesGet i) s1)"
    using g1 assms(6) by (simp add: inspectMessage_def inspect_begin_def inspect_resume_def)
  then have "gmail_poll_loop g (Some i # rest) s1 = Some (Threw e (call (MessagesGet i) s1))"
    using assms(4,5) by simp
  then have "gmail_poll_loop g (pre @ Some i # rest) (call MessagesList s)
               = Some (Threw e (call (MessagesGet i) s1))"
    using assms(3) by (simp add: gmail_poll_loop_append)
  moreover have "pre @ Some i # rest \<noteq> []" by simp
  ultimately have poll: "gmail_pollInbox ?L g s = Some (Threw e (call (MessagesGet i) s1))"
    using gmail_pollInbox_loop [OF assms(1,2)] by simp
  then have tick: "gmail_tick ?L g s
      = Some (log_to (LogError ''Gmail API poll failed'' e) (call (MessagesGet i) s1))"
    by (simp add: gmail_tick_def)
  have retry: "\<exists>s4. inspectMessage g2 i s3 = Returned s4
                   \<and> requests s4 = requests s3 @ [MessagesGet i]
                   \<and> notified (logger s4) = notified (logger s3) @ [i]
                   \<and> gmail_pollInbox (Inr (Some (pre2 @ Some i # rest2))) g2 s2
                       = (case trackProcessed i s4 of
                            None \<Rightarrow> None
                          | Some s5 \<Rightarrow> gmail_poll_loop g2 rest2 s5)"
    if t: "gmail_tick ?L g s = Some s2"
      and l: "gmail_poll_loop g2 pre2 (call MessagesList s2) = Some (Returned s3)"
      and n: "i \<notin> processedSet s3" and a: "g2 i = Inr hs"
  proof -
    from t tick have s2: "s2 = log_to (LogError ''Gmail API poll failed'' e)
                                 (call (MessagesGet i) s1)"
      by simp
    have k1: "config s1 = config s"
      using gmail_poll_loop_keeps_config [OF assms(3)] by (simp add: call_def)
    have g2: "gmail s2" "config s2 \<noteq> None"
      using g1 k1 assms(2) by (simp_all add: s2 log_to_def call_def)
    have g3: "gmail s3"
      using gmail_poll_loop_keeps_gmail [OF l] g2(1) by (simp add: call_def)
    define s4 where "s4 = log_to (Detected i (or_else (asHeaderMap hs ''from'') ''unknown sender'')
                                    (or_else (asHeaderMap hs ''subject'') ''(no subject)''))
                            (call (MessagesGet i) s3)"
    have i4: "inspectMessage g2 i s3 = Returned s4"
      using g3 a by (simp add: inspectMessage_def inspect_begin_def inspect_resume_def s4_def Let_def)
    have "gmail_poll_loop g2 (Some i # rest2) s3
            = (case trackProcessed i s4 of None \<Rightarrow> None | Some s5 \<Rightarrow> gmail_poll_loop g2 rest2 s5)"
      using assms(4) n i4 by simp
    then have "gmail_poll_loop g2 (pre2 @ Some i # rest2) (call MessagesList s2)
            = (case trackProcessed i s4 of None \<Rightarrow> None | Some s5 \<Rightarrow> gmail_poll_loop g2 rest2 s5)"
      using l by (simp add: gmail_poll_loop_append)
    moreover have "pre2 @ Some i # rest2 \<noteq> []" by simp
    ultimately have "gmail_pollInbox (Inr (Some (pre2 @ Some i # rest2))) g2 s2
            = (case trackProcessed i s4 of None \<Rightarrow> None | Some s5 \<Rightarrow> gmail_poll_loop g2 rest2 s5)"
      using gmail_pollInbox_loop [OF g2] by simp
    moreover have "requests s4 = requests s3 @ [MessagesGet i]"
      by (simp add: s4_def log_to_def call_def)
    moreover have "notified (logger s4) = notified (logger s3) @ [i]"
      by (simp add: s4_def log_to_def call_def notified_append)
    ultimately show ?thesis using i4 by blast
  qed
  show ?thesis
    using poll tick retry assms(5) outlook_poll_loop_never_throws [of messages p e' p']
    by (simp add: call_def)
qed

theorem failed_inspection_aborts_poll_witness:
  "gmail_pollInbox (Inr (Some ([Some ''A''] @ Some ''B'' # [Some ''C'']))) failing_get
       (gmail_started 100)
     = Some (Threw (Rejected ''get failed'') (call (MessagesGet ''B'') after_A))
   \<and> ''B'' \<notin> processedSet (call (MessagesGet ''B'') after_A)
   \<and> processedQueue (call (MessagesGet ''B'') after_A) = processedQueue after_A
   \<and> gmail_tick (Inr (Some ([Some ''A''] @ Some ''B'' # [Some ''C'']))) failing_get
        (gmail_started 100) = Some after_failed_poll
   \<and> gmail_poll_loop (\<lambda>i. Inr []) [Some ''A''] (call MessagesList after_failed_poll)
        = Some (Returned (call MessagesList after_failed_poll))
   \<and> ''B'' \<notin> processedSet (call MessagesList after_failed_poll)
   \<and> (\<exists>s4. inspectMessage (\<lambda>i. Inr []) ''B'' (call MessagesList after_failed_poll) = Returned s4
          \<and> requests s4 = requests (call MessagesList after_failed_poll) @ [MessagesGet ''B'']
          \<and> notified (logger s4)
              = notified (logger (call MessagesList after_failed_poll)) @ [''B'']
          \<and> gmail_pollInbox (Inr (Some ([Some ''A''] @ Some ''B'' # [Some ''C''])))
                (\<lambda>i. Inr []) after_failed_poll
              = (case trackProcessed ''B'' s4 of
                   None \<Rightarrow> None
                 | Some s5 \<Rightarrow> gmail_poll_loop (\<lambda>i. Inr []) [Some ''C''] s5))
   \<and> outlook_poll_loop [] outlook_init \<noteq> Some (Threw (Rejected ''get failed'') outlook_init)"
proof -
  have 1: "gmail (gmail_started 100)" by (simp add: gmail_started_def)
  have 2: "config (gmail_started 100) \<noteq> None" by (simp add: gmail_started_def)
  have 3: "gmail_poll_loop failing_get [Some ''A''] (call MessagesList (gmail_started 100)) =
          Some (Returned after_A)"
    by (simp add: after_A_def gmail_started_def gmail_init_def gmail_example_config_def
        failing_get_def inspectMessage_def inspect_begin_def inspect_resume_def
        trackProcessed_def evict_returns call_def log_to_def
        asHeaderMap_def)
  have 4: "''B'' \<noteq> []" by simp
  have 5: "''B'' \<notin> processedSet after_A" by (simp add: after_A_def)
  have 6: "failing_get ''B'' = Inl (Rejected ''get failed'')" by (simp add: failing_get_def)
  have 7: "log_to (LogError ''Gmail API poll failed'' (Rejected ''get failed''))
             (call (MessagesGet ''B'') after_A) = after_failed_poll"
    by (simp add: after_failed_poll_def after_A_def log_to_def call_def)
  have 8: "gmail_poll_loop (\<lambda>i. Inr []) [Some ''A''] (call MessagesList after_failed_poll)
        = Some (Returned (call MessagesList after_failed_poll))"
    by (simp add: after_failed_poll_def after_A_def call_def)
  have 9: "''B'' \<notin> processedSet (call MessagesList after_failed_poll)"
    by (simp add: after_failed_poll_def after_A_def call_def)
  show ?thesis
    using failed_inspection_aborts_poll [OF 1 2 3 4 5 6, of "[Some ''C'']" after_failed_poll
        "\<lambda>i. Inr []" "[Some ''A'']" "call MessagesList after_failed_poll" "[]" "[Some ''C'']"
        "[]" outlook_init "Rejected ''get failed''" outlook_init] 7 8 9
    by simp
qed

text \<open>
  Claim C5, as stated, fails: in the poll that lists \<open>[A, B, C]\<close> with the get of \<open>B\<close>
  rejecting, the poll throws and \<open>B\<close> is not in the cache; a second poll with the same
  listing, the backend now answering, notifies \<open>B\<close> (and \<open>C\<close>): the notification is
  retried, not dropped.
\<close>

theorem failed_inspection_counterexample:
  "map_option (\<lambda>r. (threw r, ''B'' \<in> processedSet (state_of r)))
     (gmail_pollInbox listing_ABC failing_get (gmail_started 100)) = Some (True, False)
   \<and> map_option (\<lambda>s. notified (logger s))
       (gmail_ticks [(listing_ABC, failing_get), (listing_ABC, \<lambda>i. Inr [])] (gmail_started 100))
     = Some [''A'', ''B'', ''C'']"
  by code_simp

text \<open>
  Claim C8, as stated, fails: the three polls of scenario C with capacity 2 do not give
  the four notifications \<open>A, B, C, D\<close>.
\<close>

theorem scenario_C_counterexample:
  "map_option (\<lambda>s. notified (logger s)) (gmail_ticks scenario_C (gmail_started 2))
     \<noteq> Some [''A'', ''B'', ''C'', ''D'']"
  by code_simp

text \<open>
  Claim C8, as amended. The three polls of scenario C with capacity 2 give five
  notifications, in the order \<open>A, B, C, A, D\<close>: after the second poll the queue is
  \<open>[B, C]\<close>, \<open>A\<close> having been evicted when \<open>C\<close> was inserted, so the third poll notifies
  \<open>A\<close> again.
\<close>

theorem scenario_C_notifications:
  "map_option (\<lambda>s. notified (logger s)) (gmail_ticks scenario_C (gmail_started 2))
     = Some [''A'', ''B'', ''C'', ''A'', ''D'']
   \<and> map_option (\<lambda>s. (notified (logger s), processedQueue s))
         (gmail_ticks (take 2 scenario_C) (gmail_started 2))
     = Some ([''A'', ''B'', ''C''], [''B'', ''C''])"
  by code_simp

text \<open>
  Claim C10. In the loop of \<open>pollInbox\<close>, of the Gmail service and of the Outlook service,
  the entries whose identifier is missing or empty count for nothing: the loop over a
  listing gives the result (returned or thrown, the log with its notifications, the
  backend calls, the cache) of the loop over the listing without these entries. So such
  an entry is neither dispatched nor inserted into the cache, and the entries after it are
  processed as if it were not there.
\<close>

theorem entries_without_id_are_skipped:
  "gmail_poll_loop g (filter truthy entries) s = gmail_poll_loop g entries s
   \<and> outlook_poll_loop (filter (\<lambda>m. truthy (msg_id m)) messages) p = outlook_poll_loop messages p"
proof
  show "gmail_poll_loop g (filter truthy entries) s = gmail_poll_loop g entries s"
    by (induction g entries s rule: gmail_poll_loop.induct)
       (simp_all split: outcome.splits option.splits)
  show "outlook_poll_loop (filter (\<lambda>m. truthy (msg_id m)) messages) p = outlook_poll_loop messages p"
    by (induction messages p rule: outlook_poll_loop.induct)
       (simp_all split: outcome.splits option.splits)
qed

section \<open>Properties of the mailbox watcher\<close>

lemma sendNotification_keeps:
  "lastProcessedUid (state_of (sendNotification cfg send env s)) = lastProcessedUid s
   \<and> dispatches (state_of (sendNotification cfg send env s)) = dispatches s
   \<and> processingMailbox (state_of (sendNotification cfg send env s)) = processingMailbox s"
  by (simp add: sendNotification_def log_to_def Let_def split: option.splits)

lemma handle_loop_trace:
  "\<exists>new. dispatches (state_of (handle_loop cfg send fin ms s)) = dispatches s @ new
         \<and> above_cursor (lastProcessedUid s) new
         \<and> lastProcessedUid (state_of (handle_loop cfg send fin ms s))
             = last (lastProcessedUid s # map uid (delivered new))"
proof (induction ms arbitrary: s)
  case Nil
  have "dispatches (state_of (handle_loop cfg send fin [] s)) = dispatches s @ []"
    "lastProcessedUid (state_of (handle_loop cfg send fin [] s)) = lastProcessedUid s"
    by (simp_all split: option.splits)
  then show ?case by (intro exI [of _ "[]"]) (simp add: delivered_def)
next
  case (Cons m ms)
  show ?case
  proof (cases "envelope m = None \<or> uid m = 0 \<or> uid m \<le> lastProcessedUid s")
    case True
    then have "handle_loop cfg send fin (m # ms) s = handle_loop cfg send fin ms s" by simp
    with Cons.IH [of s] show ?thesis by simp
  next
    case False
    note keeps = sendNotification_keeps [of cfg send "envelope m" s]
    show ?thesis
    proof (cases "sendNotification cfg send (envelope m) s")
      case (Threw e s')
      with False have r: "handle_loop cfg send fin (m # ms) s
                            = Threw e (s'\<lparr>dispatches := dispatches s' @ [(m, False)]\<rparr>)"
        by auto
      from keeps Threw have k: "lastProcessedUid s' = lastProcessedUid s"
        "dispatches s' = dispatches s" by simp_all
      show ?thesis
        unfolding r using k False
        by (intro exI [of _ "[(m, False)]"]) (simp add: delivered_def)
    next
      case (Returned s')
      define s'' where "s'' = s'\<lparr>dispatches := dispatches s' @ [(m, True)],
                                 lastProcessedUid := uid m\<rparr>"
      from Returned False have r: "handle_loop cfg send fin (m # ms) s
                                     = handle_loop cfg send fin ms s''"
        by (auto simp: s''_def)
      from keeps Returned have k: "lastProcessedUid s' = lastProcessedUid s"
        "dispatches s' = dispatches s" by simp_all
      from Cons.IH [of s''] obtain new where new:
        "dispatches (state_of (handle_loop cfg send fin ms s'')) = dispatches s'' @ new"
        "above_cursor (lastProcessedUid s'') new"
        "lastProcessedUid (state_of (handle_loop cfg send fin ms s''))
           = last (lastProcessedUid s'' # map uid (delivered new))"
        by blast
      have d: "dispatches s'' = dispatches s @ [(m, True)]" "lastProcessedUid s'' = uid m"
        using k by (simp_all add: s''_def)
      have "dispatches (state_of (handle_loop cfg send fin ms s''))
              = dispatches s @ ((m, True) # new)"
        using new(1) d(1) by simp
      moreover have "above_cursor (lastProcessedUid s) ((m, True) # new)"
        using new(2) d(2) False by simp
      moreover have "lastProcessedUid (state_of (handle_loop cfg send fin ms s''))
                       = last (lastProcessedUid s # map uid (delivered ((m, True) # new)))"
        using new(3) d(2) by (simp add: delivered_def)
      ultimately show ?thesis unfolding r by blast
    qed
  qed
qed

lemma above_cursor_sorted:
  "above_cursor c tr \<Longrightarrow> sorted_wrt (<) (c # map uid (delivered tr))"
proof (induction tr arbitrary: c)
  case Nil
  then show ?case by (simp add: delivered_def)
next
  case (Cons x tr)
  obtain m sent where x: "x = (m, sent)" by (cases x)
  show ?case
  proof (cases sent)
    case True
    with Cons.prems x have "c < uid m" "above_cursor (uid m) tr" by simp_all
    with Cons.IH [of "uid m"] have "sorted_wrt (<) (uid m # map uid (delivered tr))" by simp
    with \<open>c < uid m\<close> show ?thesis using x True by (auto simp: delivered_def)
  next
    case False
    with Cons.prems x have "above_cursor c tr" by simp
    with Cons.IH [of c] show ?thesis using x False by (simp add: delivered_def)
  qed
qed

lemma above_cursor_append:
  "above_cursor c (a @ b)
     = (above_cursor c a \<and> above_cursor (last (c # map uid (delivered a))) b)"
proof (induction a arbitrary: c)
  case Nil
  then show ?case by (simp add: delivered_def)
next
  case (Cons x a)
  obtain m sent where x: "x = (m, sent)" by (cases x)
  show ?case using Cons.IH [of "if sent then uid m else c"] x
    by (cases sent) (simp_all add: delivered_def)
qed

lemma delivered_append: "delivered (a @ b) = delivered a @ delivered b"
  by (simp add: delivered_def)

lemma last_cursor_append:
  "last (c # map uid (delivered (a @ b)))
     = last (last (c # map uid (delivered a)) # map uid (delivered b))"
  by (simp add: delivered_append)

lemma caught_keeps:
  "dispatches (caught t r) = dispatches (state_of r)
   \<and> lastProcessedUid (caught t r) = lastProcessedUid (state_of r)"
  by (cases r) (simp_all add: log_to_def)

lemma handleNewMessages_trace:
  "\<exists>new. dispatches (state_of (handleNewMessages cfg w s)) = dispatches s @ new
         \<and> above_cursor (lastProcessedUid s) new
         \<and> lastProcessedUid (state_of (handleNewMessages cfg w s))
             = last (lastProcessedUid s # map uid (delivered new))"
proof -
  have idle: "\<exists>new. dispatches s = dispatches s @ new \<and> above_cursor (lastProcessedUid s) new
                \<and> lastProcessedUid s = last (lastProcessedUid s # map uid (delivered new))"
    by (intro exI [of _ "[]"]) (simp add: delivered_def)
  have run: "\<exists>new. dispatches (state_of (handle_loop cfg (sendMail w) (fetchError w) (fetched w)
                                   (call r s))) = dispatches s @ new
                \<and> above_cursor (lastProcessedUid s) new
                \<and> lastProcessedUid (state_of (handle_loop cfg (sendMail w) (fetchError w)
                                      (fetched w) (call r s)))
                    = last (lastProcessedUid s # map uid (delivered new))" for r
    using handle_loop_trace [of cfg "sendMail w" "fetchError w" "fetched w" "call r s"]
    by (simp add: call_def)
  have "handleNewMessages cfg w s = Returned s
        \<or> (\<exists>r. handleNewMessages cfg w s
                   = handle_loop cfg (sendMail w) (fetchError w) (fetched w) (call r s))"
    unfolding handleNewMessages_def handle_begin_def Let_def by (auto split: option.splits)
  then show ?thesis
  proof
    assume "handleNewMessages cfg w s = Returned s"
    with idle show ?thesis by simp
  next
    assume "\<exists>r. handleNewMessages cfg w s
                 = handle_loop cfg (sendMail w) (fetchError w) (fetched w) (call r s)"
    then obtain r where "handleNewMessages cfg w s
                 = handle_loop cfg (sendMail w) (fetchError w) (fetched w) (call r s)" ..
    with run [of r] show ?thesis by simp
  qed
qed

lemma scan_trace:
  "\<exists>new. dispatches (scan cfg w s) = dispatches s @ new
         \<and> above_cursor (lastProcessedUid s) new
         \<and> lastProcessedUid (scan cfg w s) = last (lastProcessedUid s # map uid (delivered new))"
proof (cases "processingMailbox s")
  case True
  then have "scan cfg w s = s" by (simp add: scan_def exists_begin_def)
  then show ?thesis by (intro exI [of _ "[]"]) (simp add: delivered_def)
next
  case False
  define s1 where "s1 = s\<lparr>processingMailbox := True\<rparr>"
  have s1: "dispatches s1 = dispatches s" "lastProcessedUid s1 = lastProcessedUid s"
    by (simp_all add: s1_def)
  have "scan cfg w s = exists_finish cfg w s1"
    using False by (simp add: scan_def exists_begin_def s1_def)
  then have "dispatches (scan cfg w s) = dispatches (state_of (handleNewMessages cfg w s1))"
    "lastProcessedUid (scan cfg w s) = lastProcessedUid (state_of (handleNewMessages cfg w s1))"
    using caught_keeps [of "''Failed to process new message''" "handleNewMessages cfg w s1"]
    by (simp_all add: exists_finish_def)
  then show ?thesis using handleNewMessages_trace [of cfg w s1] s1 by simp
qed

lemma scans_trace:
  "\<exists>new. dispatches (scans cfg ws s) = dispatches s @ new
         \<and> above_cursor (lastProcessedUid s) new
         \<and> lastProcessedUid (scans cfg ws s) = last (lastProcessedUid s # map uid (delivered new))"
proof (induction ws arbitrary: s)
  case Nil
  show ?case by (intro exI [of _ "[]"]) (simp add: delivered_def)
next
  case (Cons w ws)
  from scan_trace [of cfg w s] obtain a where a:
    "dispatches (scan cfg w s) = dispatches s @ a" "above_cursor (lastProcessedUid s) a"
    "lastProcessedUid (scan cfg w s) = last (lastProcessedUid s # map uid (delivered a))"
    by blast
  from Cons.IH [of "scan cfg w s"] obtain b where b:
    "dispatches (scans cfg ws (scan cfg w s)) = dispatches (scan cfg w s) @ b"
    "above_cursor (lastProcessedUid (scan cfg w s)) b"
    "lastProcessedUid (scans cfg ws (scan cfg w s))
       = last (lastProcessedUid (scan cfg w s) # map uid (delivered b))"
    by blast
  have "dispatches (scans cfg (w # ws) s) = dispatches s @ (a @ b)"
    using a(1) b(1) by simp
  moreover have "above_cursor (lastProcessedUid s) (a @ b)"
    using a(2,3) b(2) by (simp add: above_cursor_append)
  moreover have "lastProcessedUid (scans cfg (w # ws) s)
                   = last (lastProcessedUid s # map uid (delivered (a @ b)))"
    using a(3) b(3) by (simp only: last_cursor_append scans.simps)
  ultimately show ?case by blast
qed

text \<open>
  Claim C1. Run any sequence of scans of the mail service, the backend and the transport
  answering anything, from any state. The \<open>sendNotification\<close> calls made during these
  scans, in order, were each for a message whose UID is above the cursor of that moment
  (\<open>above_cursor\<close>: the cursor starts at \<open>lastProcessedUid\<close> and moves to the UID of each
  message delivered). So the UIDs of the messages delivered are strictly increasing and
  above the cursor at the start: no message at or below the cursor is dispatched, none is
  delivered twice. The cursor at the end is the UID of the last message delivered (the
  cursor at the start when there is none), and is not below the cursor at the start.
\<close>

theorem cursor_never_goes_back:
  "\<exists>new. dispatches (scans cfg ws s) = dispatches s @ new
         \<and> above_cursor (lastProcessedUid s) new
         \<and> sorted_wrt (<) (lastProcessedUid s # map uid (delivered new))
         \<and> lastProcessedUid (scans cfg ws s) = last (lastProcessedUid s # map uid (delivered new))
         \<and> lastProcessedUid s \<le> lastProcessedUid (scans cfg ws s)"
proof -
  from scans_trace [of cfg ws s] obtain new where new:
    "dispatches (scans cfg ws s) = dispatches s @ new" "above_cursor (lastProcessedUid s) new"
    "lastProcessedUid (scans cfg ws s) = last (lastProcessedUid s # map uid (delivered new))"
    by blast
  have sorted: "sorted_wrt (<) (lastProcessedUid s # map uid (delivered new))"
    using above_cursor_sorted [OF new(2)] .
  have "lastProcessedUid s \<le> last (lastProcessedUid s # map uid (delivered new))"
  proof (cases "map uid (delivered new) = []")
    case True
    then show ?thesis by simp
  next
    case False
    then have "last (lastProcessedUid s # map uid (delivered new))
                 \<in> set (map uid (delivered new))"
      using last_in_set [OF False] by simp
    with sorted show ?thesis by auto
  qed
  with new sorted show ?thesis by auto
qed

lemma handle_loop_append:
  "handle_loop cfg send fin (xs @ ys) s =
     (case handle_loop cfg send None xs s of
        Returned s1 \<Rightarrow> handle_loop cfg send fin ys s1
      | Threw e s1 \<Rightarrow> Threw e s1)"
  by (induction xs arbitrary: s) (simp_all split: outcome.splits)

text \<open>
  Claim C2. In the loop of a scan, let the messages \<open>pre\<close> be dealt with without an error,
  leaving the state \<open>s1\<close>, and let the next message \<open>m\<close> be a candidate (an envelope, a UID
  above the cursor) whose \<open>sendNotification\<close> throws. Then the scan throws at \<open>m\<close>: the
  last dispatch of the trace is the failed one of \<open>m\<close>, the messages \<open>rest\<close> fetched after
  \<open>m\<close> are not dispatched, and the cursor is as it was before \<open>m\<close>, below the UID of \<open>m\<close>:
  it is the UID of the last message delivered before \<open>m\<close> in this scan, or the cursor at
  the start. The witness is scenario B: cursor 10, messages 11, 12, 13, the dispatch of
  12 failing.
\<close>

theorem failed_dispatch_stops_scan:
  assumes pre: "handle_loop cfg send None pre s = Returned s1"
    and cand: "envelope m \<noteq> None" "uid m \<noteq> 0" "lastProcessedUid s1 < uid m"
    and fail: "threw (sendNotification cfg send (envelope m) s1)"
  shows "threw (handle_loop cfg send fin (pre @ m # rest) s)
         \<and> (\<exists>new. dispatches (state_of (handle_loop cfg send fin (pre @ m # rest) s))
                     = dispatches s @ new @ [(m, False)]
                  \<and> lastProcessedUid (state_of (handle_loop cfg send fin (pre @ m # rest) s))
                     = last (lastProcessedUid s # map uid (delivered new)))
         \<and> lastProcessedUid (state_of (handle_loop cfg send fin (pre @ m # rest) s))
             = lastProcessedUid s1
         \<and> lastProcessedUid s1 < uid m"
proof -
  from fail obtain e s2 where s2: "sendNotification cfg send (envelope m) s1 = Threw e s2"
    by (cases "sendNotification cfg send (envelope m) s1") simp_all
  have k: "lastProcessedUid s2 = lastProcessedUid s1" "dispatches s2 = dispatches s1"
    using sendNotification_keeps [of cfg send "envelope m" s1] s2 by simp_all
  have "handle_loop cfg send fin (m # rest) s1
          = Threw e (s2\<lparr>dispatches := dispatches s2 @ [(m, False)]\<rparr>)"
    using cand s2 by auto
  then have r: "handle_loop cfg send fin (pre @ m # rest) s
                  = Threw e (s2\<lparr>dispatches := dispatches s2 @ [(m, False)]\<rparr>)"
    using pre by (simp add: handle_loop_append)
  from handle_loop_trace [of cfg send None pre s] pre obtain new where new:
    "dispatches s1 = dispatches s @ new"
    "lastProcessedUid s1 = last (lastProcessedUid s # map uid (delivered new))"
    by auto
  have "dispatches (state_of (handle_loop cfg send fin (pre @ m # rest) s))
          = dispatches s @ new @ [(m, False)]"
    unfolding r using k(2) new(1) by simp
  moreover have "lastProcessedUid (state_of (handle_loop cfg send fin (pre @ m # rest) s))
                   = lastProcessedUid s1"
    unfolding r using k(1) by simp
  moreover have "threw (handle_loop cfg send fin (pre @ m # rest) s)"
    unfolding r by simp
  ultimately show ?thesis using new(2) cand(3) by auto
qed

text \<open>
  Scenario B as a whole scan: the cursor ends at 11, message 11 is delivered, the dispatch
  of 12 fails, 13 is not dispatched; a second scan, the transport working, delivers 12 and
  13. Scenario A: the cursor ends at 13, with three notifications in order.
\<close>

lemma scenario_B_scan:
  "lastProcessedUid (scan mail_example_config (inbox_11_13 (reject_subject ''twelve''))
                       (mail_started 10)) = 11
   \<and> map (\<lambda>(m, sent). (uid m, sent))
         (dispatches (scan mail_example_config (inbox_11_13 (reject_subject ''twelve''))
                        (mail_started 10)))
       = [(11, True), (12, False)]
   \<and> map (\<lambda>(m, sent). (uid m, sent))
         (dispatches (scans mail_example_config
                        [inbox_11_13 (reject_subject ''twelve''), inbox_11_13 (\<lambda>ml. None)]
                        (mail_started 10)))
       = [(11, True), (12, False), (12, True), (13, True)]"
  by code_simp

lemma scenario_A_scan:
  "lastProcessedUid (scan mail_example_config (inbox_11_13 (\<lambda>ml. None)) (mail_started 10)) = 13
   \<and> map (\<lambda>(m, sent). (uid m, sent))
         (dispatches (scan mail_example_config (inbox_11_13 (\<lambda>ml. None)) (mail_started 10)))
       = [(11, True), (12, True), (13, True)]"
  by code_simp

theorem failed_dispatch_stops_scan_witness:
  "threw (handle_loop mail_example_config (reject_subject ''twelve'') None
            ([msg 11 ''eleven''] @ msg 12 ''twelve'' # [msg 13 ''thirteen'']) (mail_started 10))
   \<and> (\<exists>new. dispatches (state_of (handle_loop mail_example_config (reject_subject ''twelve'')
                  None ([msg 11 ''eleven''] @ msg 12 ''twelve'' # [msg 13 ''thirteen''])
                  (mail_started 10)))
                = dispatches (mail_started 10) @ new @ [(msg 12 ''twelve'', False)]
            \<and> lastProcessedUid (state_of (handle_loop mail_example_config
                  (reject_subject ''twelve'') None
                  ([msg 11 ''eleven''] @ msg 12 ''twelve'' # [msg 13 ''thirteen''])
                  (mail_started 10)))
                = last (lastProcessedUid (mail_started 10) # map uid (delivered new)))
   \<and> lastProcessedUid (state_of (handle_loop mail_example_config (reject_subject ''twelve'')
          None ([msg 11 ''eleven''] @ msg 12 ''twelve'' # [msg 13 ''thirteen''])
          (mail_started 10)))
       = lastProcessedUid after_11
   \<and> lastProcessedUid after_11 < uid (msg 12 ''twelve'')"
proof (rule failed_dispatch_stops_scan)
  show "handle_loop mail_example_config (reject_subject ''twelve'') None [msg 11 ''eleven'']
          (mail_started 10) = Returned after_11"
    by code_simp
  show "envelope (msg 12 ''twelve'') \<noteq> None" by (simp add: msg_def)
  show "uid (msg 12 ''twelve'') \<noteq> 0" by (simp add: msg_def)
  show "lastProcessedUid after_11 < uid (msg 12 ''twelve'')"
    by (simp add: msg_def after_11_def)
  show "threw (sendNotification mail_example_config (reject_subject ''twelve'')
                 (envelope (msg 12 ''twelve'')) after_11)"
    by code_simp
qed


section \<open>Properties of the token cache\<close>

text \<open>
  Claim C6, as stated, fails. A token with a lifetime of 3600 seconds is obtained at
  \<open>T0\<close>. At \<open>T0\<close> + 3550 s, 50 seconds remain, more than the margin: \<open>getAccessToken\<close>
  returns the cached token and makes no exchange (the claim's example says it makes one).
  At \<open>T0\<close> + 3570 s exactly 30 seconds remain: \<open>getAccessToken\<close> makes an exchange (the
  claim says the cached token is returned whenever at least 30 seconds remain).
\<close>

theorem scenario_D_counterexample:
  "accessToken token_at_T0 = Some ''first''
   \<and> accessTokenExpiresAtMs token_at_T0 = T0 + 3600 * 1000
   \<and> getAccessToken (at_time (T0 + 3550 * 1000) (token_ok ''second'' 3600)) token_at_T0
       = (Inr ''first'', token_at_T0)
   \<and> fst (getAccessToken (at_time (T0 + 3570 * 1000) (token_ok ''second'' 3600)) token_at_T0)
       = Inr ''second''"
  by code_simp

lemma exchangeToken_success:
  "fst (exchangeToken w s) = Inr t \<Longrightarrow>
   \<exists>r body. tokenResponse w = Inr r \<and> ok r \<and> parsed r = Some body \<and> access_token body = Some t
     \<and> t \<noteq> []
     \<and> snd (exchangeToken w s)
         = (call TokenPost s)
             \<lparr>accessToken := Some t,
              accessTokenExpiresAtMs :=
                nowAfter w + (case expires_in body of Some n \<Rightarrow> n | None \<Rightarrow> 3600) * 1000\<rparr>"
  by (auto simp: exchangeToken_def token_answer_def Let_def
      split: sum.splits option.splits if_splits)

lemma cachedToken_Some:
  "cachedToken t s = Some token
     \<longleftrightarrow> accessToken s = Some token \<and> token \<noteq> [] \<and> t + 30000 < accessTokenExpiresAtMs s"
  by (auto simp: cachedToken_def split: option.splits)

lemma cachedToken_None:
  "cachedToken t s = None
     \<longleftrightarrow> \<not> (\<exists>token. accessToken s = Some token \<and> token \<noteq> []
                      \<and> t + 30000 < accessTokenExpiresAtMs s)"
  by (auto simp: cachedToken_def split: option.splits)

lemma exchangeToken_requests:
  "requests (snd (exchangeToken w s)) = requests s @ [TokenPost]"
  by (simp add: exchangeToken_def token_answer_def call_def Let_def
      split: sum.splits option.splits)

lemma exchangeToken_answered:
  "tokenResponse w = Inr r \<Longrightarrow> ok r \<Longrightarrow> parsed r = Some body
   \<Longrightarrow> access_token body = Some t \<Longrightarrow> t \<noteq> []
   \<Longrightarrow> exchangeToken w s
         = (Inr t, (call TokenPost s)
             \<lparr>accessToken := Some t,
              accessTokenExpiresAtMs :=
                nowAfter w + (case expires_in body of Some n \<Rightarrow> n | None \<Rightarrow> 3600) * 1000\<rparr>)"
  by (simp add: exchangeToken_def token_answer_def Let_def)

text \<open>
  Claim C6, as amended. When a non-empty token is cached and more than 30 seconds remain
  before its expiry (\<open>now + 30000 < accessTokenExpiresAtMs\<close>), \<open>getAccessToken\<close> returns
  it and changes nothing. Whenever \<open>getAccessToken\<close> returns a token \<open>t'\<close>, either \<open>t'\<close> is
  the cached token, more than 30 seconds remain and nothing changed, or no cached token
  was fresh, the exchange answered OK with \<open>t'\<close>, and the service now holds \<open>t'\<close> with the
  expiry \<open>nowAfter + lifetime * 1000\<close>, the clock being read again after the answer and
  the lifetime being the reported \<open>expires_in\<close>, or 3600 when none is reported. And
  otherwise, that is when no non-empty token is cached with more than 30 seconds
  remaining, \<open>getAccessToken\<close> makes the request of the exchange, and when the endpoint
  answers OK with a body that has a non-empty \<open>access_token\<close> the method returns that
  token and stores it with that expiry, 3600 seconds after the answer when the body
  reports no lifetime.
\<close>

theorem token_cache_freshness:
  "(accessToken s = Some t \<and> t \<noteq> [] \<and> now w + 30000 < accessTokenExpiresAtMs s
      \<longrightarrow> getAccessToken w s = (Inr t, s))
   \<and> (fst (getAccessToken w s) = Inr t'
      \<longrightarrow> (accessToken s = Some t' \<and> now w + 30000 < accessTokenExpiresAtMs s
           \<and> snd (getAccessToken w s) = s)
         \<or> (cachedToken (now w) s = None
            \<and> (\<exists>r body. tokenResponse w = Inr r \<and> ok r \<and> parsed r = Some body
                 \<and> access_token body = Some t'
                 \<and> snd (getAccessToken w s)
                     = (call TokenPost s)
                         \<lparr>accessToken := Some t',
                          accessTokenExpiresAtMs :=
                            nowAfter w
                            + (case expires_in body of Some n \<Rightarrow> n | None \<Rightarrow> 3600) * 1000\<rparr>)))
   \<and> (\<not> (\<exists>token. accessToken s = Some token \<and> token \<noteq> []
                     \<and> now w + 30000 < accessTokenExpiresAtMs s)
      \<longrightarrow> requests (snd (getAccessToken w s)) = requests s @ [TokenPost]
          \<and> (tokenResponse w = Inr answer \<and> ok answer \<and> parsed answer = Some reply
               \<and> access_token reply = Some new \<and> new \<noteq> []
             \<longrightarrow> getAccessToken w s
                   = (Inr new,
                      (call TokenPost s)
                        \<lparr>accessToken := Some new,
                         accessTokenExpiresAtMs :=
                           nowAfter w
                           + (case expires_in reply of Some n \<Rightarrow> n | None \<Rightarrow> 3600) * 1000\<rparr>)))"
proof (intro conjI impI)
  assume "accessToken s = Some t \<and> t \<noteq> [] \<and> now w + 30000 < accessTokenExpiresAtMs s"
  then have "cachedToken (now w) s = Some t" by (simp add: cachedToken_Some)
  then show "getAccessToken w s = (Inr t, s)" by (simp add: getAccessToken_def)
next
  assume r: "fst (getAccessToken w s) = Inr t'"
  show "(accessToken s = Some t' \<and> now w + 30000 < accessTokenExpiresAtMs s
           \<and> snd (getAccessToken w s) = s)
         \<or> (cachedToken (now w) s = None
            \<and> (\<exists>r body. tokenResponse w = Inr r \<and> ok r \<and> parsed r = Some body
                 \<and> access_token body = Some t'
                 \<and> snd (getAccessToken w s)
                     = (call TokenPost s)
                         \<lparr>accessToken := Some t',
                          accessTokenExpiresAtMs :=
                            nowAfter w
                            + (case expires_in body of Some n \<Rightarrow> n | None \<Rightarrow> 3600) * 1000\<rparr>))"
  proof (cases "cachedToken (now w) s")
    case (Some token)
    with r have "token = t'" "snd (getAccessToken w s) = s"
      by (simp_all add: getAccessToken_def)
    with Some show ?thesis by (simp add: cachedToken_Some)
  next
    case None
    then have g: "getAccessToken w s = exchangeToken w s" by (simp add: getAccessToken_def)
    with r have "fst (exchangeToken w s) = Inr t'" by simp
    from exchangeToken_success [OF this] None show ?thesis unfolding g by blast
  qed
next
  assume "\<not> (\<exists>token. accessToken s = Some token \<and> token \<noteq> []
                     \<and> now w + 30000 < accessTokenExpiresAtMs s)"
  then have "cachedToken (now w) s = None" by (simp add: cachedToken_None)
  then have "getAccessToken w s = exchangeToken w s" by (simp add: getAccessToken_def)
  then show "requests (snd (getAccessToken w s)) = requests s @ [TokenPost]"
    by (simp add: exchangeToken_requests)
next
  assume "\<not> (\<exists>token. accessToken s = Some token \<and> token \<noteq> []
                     \<and> now w + 30000 < accessTokenExpiresAtMs s)"
  then have "cachedToken (now w) s = None" by (simp add: cachedToken_None)
  then have g: "getAccessToken w s = exchangeToken w s" by (simp add: getAccessToken_def)
  assume "tokenResponse w = Inr answer \<and> ok answer \<and> parsed answer = Some reply
               \<and> access_token reply = Some new \<and> new \<noteq> []"
  then show "getAccessToken w s
                   = (Inr new,
                      (call TokenPost s)
                        \<lparr>accessToken := Some new,
                         accessTokenExpiresAtMs :=
                           nowAfter w
                           + (case expires_in reply of Some n \<Rightarrow> n | None \<Rightarrow> 3600) * 1000\<rparr>)"
    unfolding g by (simp add: exchangeToken_answered)
qed

theorem token_cache_freshness_witness:
  "getAccessToken (at_time (T0 + 3550 * 1000) (token_ok ''second'' 3600)) token_at_T0
     = (Inr ''first'', token_at_T0)
   \<and> ((accessToken token_at_T0 = Some ''second''
         \<and> now (at_time (T0 + 3570 * 1000) (token_ok ''second'' 3600)) + 30000
             < accessTokenExpiresAtMs token_at_T0
         \<and> snd (getAccessToken (at_time (T0 + 3570 * 1000) (token_ok ''second'' 3600)) token_at_T0)
             = token_at_T0)
       \<or> (cachedToken (now (at_time (T0 + 3570 * 1000) (token_ok ''second'' 3600))) token_at_T0 = None
          \<and> (\<exists>r body. tokenResponse (at_time (T0 + 3570 * 1000) (token_ok ''second'' 3600)) = Inr r
               \<and> ok r \<and> parsed r = Some body \<and> access_token body = Some ''second''
               \<and> snd (getAccessToken (at_time (T0 + 3570 * 1000) (token_ok ''second'' 3600))
                         token_at_T0)
                   = (call TokenPost token_at_T0)
                       \<lparr>accessToken := Some ''second'',
                        accessTokenExpiresAtMs :=
                          nowAfter (at_time (T0 + 3570 * 1000) (token_ok ''second'' 3600))
                          + (case expires_in body of Some n \<Rightarrow> n | None \<Rightarrow> 3600) * 1000\<rparr>)))
   \<and> requests (snd (getAccessToken (at_time (T0 + 3570 * 1000) (token_without_lifetime ''third''))
                      token_at_T0))
       = requests token_at_T0 @ [TokenPost]
   \<and> getAccessToken (at_time (T0 + 3570 * 1000) (token_without_lifetime ''third'')) token_at_T0
       = (Inr ''third'',
          (call TokenPost token_at_T0)
            \<lparr>accessToken := Some ''third'',
             accessTokenExpiresAtMs := T0 + 3570 * 1000 + 3600 * 1000\<rparr>)"
proof -
  have a: "accessToken token_at_T0 = Some ''first'' \<and> ''first'' \<noteq> []
           \<and> now (at_time (T0 + 3550 * 1000) (token_ok ''second'' 3600)) + 30000
               < accessTokenExpiresAtMs token_at_T0"
    by code_simp
  have b: "fst (getAccessToken (at_time (T0 + 3570 * 1000) (token_ok ''second'' 3600)) token_at_T0)
             = Inr ''second''"
    by code_simp
  have c: "accessToken token_at_T0 = Some ''first''"
    "\<not> now (at_time (T0 + 3570 * 1000) (token_without_lifetime ''third'')) + 30000
         < accessTokenExpiresAtMs token_at_T0"
    by code_simp+
  have d: "tokenResponse (at_time (T0 + 3570 * 1000) (token_without_lifetime ''third''))
             = Inr \<lparr>ok = True, status = 200, bodyText = ''{...}'',
                    parsed = Some \<lparr>access_token = Some ''third'', expires_in = None\<rparr>\<rparr>"
    "nowAfter (at_time (T0 + 3570 * 1000) (token_without_lifetime ''third''))
       = T0 + 3570 * 1000"
    by (simp_all add: at_time_def token_without_lifetime_def)
  have 1: "getAccessToken (at_time (T0 + 3550 * 1000) (token_ok ''second'' 3600)) token_at_T0
     = (Inr ''first'', token_at_T0)"
    using token_cache_freshness [of token_at_T0 "''first''"
        "at_time (T0 + 3550 * 1000) (token_ok ''second'' 3600)"] a
    by blast
  have 2: "(accessToken token_at_T0 = Some ''second''
         \<and> now (at_time (T0 + 3570 * 1000) (token_ok ''second'' 3600)) + 30000
             < accessTokenExpiresAtMs token_at_T0
         \<and> snd (getAccessToken (at_time (T0 + 3570 * 1000) (token_ok ''second'' 3600)) token_at_T0)
             = token_at_T0)
       \<or> (cachedToken (now (at_time (T0 + 3570 * 1000) (token_ok ''second'' 3600))) token_at_T0 = None
          \<and> (\<exists>r body. tokenResponse (at_time (T0 + 3570 * 1000) (token_ok ''second'' 3600)) = Inr r
               \<and> ok r \<and> parsed r = Some body \<and> access_token body = Some ''second''
               \<and> snd (getAccessToken (at_time (T0 + 3570 * 1000) (token_ok ''second'' 3600))
                         token_at_T0)
                   = (call TokenPost token_at_T0)
                       \<lparr>accessToken := Some ''second'',
                        accessTokenExpiresAtMs :=
                          nowAfter (at_time (T0 + 3570 * 1000) (token_ok ''second'' 3600))
                          + (case expires_in body of Some n \<Rightarrow> n | None \<Rightarrow> 3600) * 1000\<rparr>))"
    using token_cache_freshness [of token_at_T0 _
        "at_time (T0 + 3570 * 1000) (token_ok ''second'' 3600)" "''second''"] b
    by blast
  have 3: "requests (snd (getAccessToken (at_time (T0 + 3570 * 1000) (token_without_lifetime ''third''))
                      token_at_T0))
       = requests token_at_T0 @ [TokenPost]
   \<and> getAccessToken (at_time (T0 + 3570 * 1000) (token_without_lifetime ''third'')) token_at_T0
       = (Inr ''third'',
          (call TokenPost token_at_T0)
            \<lparr>accessToken := Some ''third'',
             accessTokenExpiresAtMs := T0 + 3570 * 1000 + 3600 * 1000\<rparr>)"
    using token_cache_freshness [of token_at_T0 _
        "at_time (T0 + 3570 * 1000) (token_without_lifetime ''third'')" _
        "\<lparr>ok = True, status = 200, bodyText = ''{...}'',
          parsed = Some \<lparr>access_token = Some ''third'', expires_in = None\<rparr>\<rparr>"
        "\<lparr>access_token = Some ''third'', expires_in = None\<rparr>" "''third''"] c d
    by (simp add: call_def)
  from 1 2 3 show ?thesis by blast
qed

lemma exchangeToken_failure:
  "exchange_fails w \<Longrightarrow>
   (\<exists>e. fst (exchangeToken w s) = Inl e) \<and> snd (exchangeToken w s) = call TokenPost s"
  by (auto simp: exchange_fails_def exchangeToken_def token_answer_def Let_def
      split: sum.splits option.splits if_splits)

lemma cachedToken_later:
  "cachedToken t s = None \<Longrightarrow> t \<le> t' \<Longrightarrow> accessToken s' = accessToken s
   \<Longrightarrow> accessTokenExpiresAtMs s' = accessTokenExpiresAtMs s \<Longrightarrow> cachedToken t' s' = None"
  by (auto simp: cachedToken_def split: option.splits if_splits)

text \<open>
  Claim C7. When \<open>getAccessToken\<close> makes the exchange (no cached token is fresh) and the
  exchange fails (\<open>fetch\<close> rejects, the response is not OK, its text is not JSON, or the
  body has no \<open>access_token\<close>), the method throws, the cached token and its expiry are as
  they were (only the request is added to the trace), and every later call, at a clock
  that has not gone back, makes the exchange again.
\<close>

theorem failed_exchange_keeps_token:
  assumes "exchange_fails w" and "cachedToken (now w) s = None"
  shows "(\<exists>e. fst (getAccessToken w s) = Inl e)
         \<and> accessToken (snd (getAccessToken w s)) = accessToken s
         \<and> accessTokenExpiresAtMs (snd (getAccessToken w s)) = accessTokenExpiresAtMs s
         \<and> snd (getAccessToken w s) = call TokenPost s
         \<and> (\<forall>w'. now w \<le> now w' \<longrightarrow>
               getAccessToken w' (snd (getAccessToken w s))
                 = exchangeToken w' (snd (getAccessToken w s)))"
proof -
  have g: "getAccessToken w s = exchangeToken w s"
    using assms(2) by (simp add: getAccessToken_def)
  note f = exchangeToken_failure [OF assms(1), of s]
  have k: "accessToken (call TokenPost s) = accessToken s"
    "accessTokenExpiresAtMs (call TokenPost s) = accessTokenExpiresAtMs s"
    by (simp_all add: call_def)
  have "getAccessToken w' (call TokenPost s) = exchangeToken w' (call TokenPost s)"
    if "now w \<le> now w'" for w'
    using cachedToken_later [OF assms(2) that k] by (simp add: getAccessToken_def)
  then show ?thesis using f k unfolding g by simp
qed

theorem failed_exchange_keeps_token_witness:
  "(\<exists>e. fst (getAccessToken (at_time (T0 + 3600 * 1000) token_refused) token_at_T0) = Inl e)
   \<and> accessToken (snd (getAccessToken (at_time (T0 + 3600 * 1000) token_refused) token_at_T0))
       = accessToken token_at_T0
   \<and> accessTokenExpiresAtMs
         (snd (getAccessToken (at_time (T0 + 3600 * 1000) token_refused) token_at_T0))
       = accessTokenExpiresAtMs token_at_T0
   \<and> snd (getAccessToken (at_time (T0 + 3600 * 1000) token_refused) token_at_T0)
       = call TokenPost token_at_T0
   \<and> getAccessToken (at_time (T0 + 3900 * 1000) (token_ok ''second'' 3600))
         (snd (getAccessToken (at_time (T0 + 3600 * 1000) token_refused) token_at_T0))
       = exchangeToken (at_time (T0 + 3900 * 1000) (token_ok ''second'' 3600))
           (snd (getAccessToken (at_time (T0 + 3600 * 1000) token_refused) token_at_T0))"
proof -
  have a: "exchange_fails (at_time (T0 + 3600 * 1000) token_refused)" by code_simp
  have b: "cachedToken (now (at_time (T0 + 3600 * 1000) token_refused)) token_at_T0 = None"
    by code_simp
  have c: "now (at_time (T0 + 3600 * 1000) token_refused)
             \<le> now (at_time (T0 + 3900 * 1000) (token_ok ''second'' 3600))"
    by code_simp
  show ?thesis using failed_exchange_keeps_token [OF a b] c by blast
qed

section \<open>Properties of the triggers\<close>

text \<open>
  The machines are the methods: a poll, or a scan, that runs alone through its steps is
  the method run in one piece.
\<close>

lemma gmail_poll_loop_as_steps:
  "gmail_poll_loop g entries s =
     (case gmail_advance entries s of
        None \<Rightarrow> None
      | Some (s', None) \<Rightarrow> Some (Returned s')
      | Some (s', Some (i, rest)) \<Rightarrow>
          (case inspect_resume (g i) i s' of
             Threw e s'' \<Rightarrow> Some (Threw e s'')
           | Returned s'' \<Rightarrow>
               (case trackProcessed i s'' of
                  None \<Rightarrow> None
                | Some s3 \<Rightarrow> gmail_poll_loop g rest s3)))"
  by (induction g entries s rule: gmail_poll_loop.induct)
     (simp_all add: inspectMessage_def split: option.splits outcome.splits)

lemma outlook_pollInbox_as_steps:
  "outlook_pollInbox w s =
     (case outlook_poll_begin (now w) s of
        None \<Rightarrow> Some (Returned s)
      | Some (s1, AwaitMessages) \<Rightarrow> outlook_poll_rest (list_answer (listResponse w)) s1
      | Some (s1, AwaitToken) \<Rightarrow>
          (case token_answer (tokenResponse w) (nowAfter w) s1 of
             (Inl e, s2) \<Rightarrow> Some (Threw e s2)
           | (Inr token, s2) \<Rightarrow>
               outlook_poll_rest (list_answer (listResponse w)) (call GraphList s2)))"
  by (simp add: outlook_pollInbox_def outlook_poll_begin_def listUnreadMessages_def
      getAccessToken_def exchangeToken_def outlook_poll_rest_def
      split: option.splits prod.splits sum.splits)

lemma scan_as_events:
  "fst (mail_run cfg (s, [])
          [Exists (clientMailbox w), Completes 0 (fetched w) (fetchError w) (sendMail w)])
     = scan cfg w s"
  by (simp add: scan_def exists_finish_def handleNewMessages_def split: option.splits)

lemma mail_step_inv: "guard_inv c \<Longrightarrow> guard_inv (mail_step cfg c e)"
proof -
  assume inv: "guard_inv c"
  obtain s tasks where c: "c = (s, tasks)" by (cases c)
  show ?thesis
  proof (cases e)
    case (Exists box)
    show ?thesis
    proof (cases "processingMailbox s")
      case True
      with inv c Exists show ?thesis by (simp add: guard_inv_def exists_begin_def)
    next
      case False
      with inv c have "tasks = []" by (simp add: guard_inv_def)
      with False c Exists show ?thesis
        by (simp add: guard_inv_def exists_begin_def handle_begin_def call_def Let_def
            split: option.splits)
    qed
  next
    case (Completes k ms fin send)
    show ?thesis
    proof (cases "processingMailbox s")
      case False
      with inv c have "tasks = []" by (simp add: guard_inv_def)
      with False c Completes show ?thesis by (simp add: guard_inv_def)
    next
      case True
      with inv c have "length tasks = 1" by (simp add: guard_inv_def)
      then obtain t where t: "tasks = [t]" by (cases tasks) auto
      show ?thesis
      proof (cases "k < length tasks")
        case False
        with inv c Completes show ?thesis by simp
      next
        case k: True
        with t have "k = 0" by simp
        with t c Completes show ?thesis by (cases t) (simp_all add: guard_inv_def)
      qed
    qed
  qed
qed

lemma mail_run_inv: "guard_inv c \<Longrightarrow> guard_inv (mail_run cfg c es)"
  by (induction es arbitrary: c) (simp_all add: mail_step_inv)

lemma gmail_ticks_pile_up:
  assumes "gmail g" and "config g \<noteq> None"
  shows "gmail_run (g, tasks) (replicate k Tick)
           = Some (g\<lparr>requests := requests g @ replicate k MessagesList\<rparr>,
                   tasks @ replicate k AwaitList)"
  using assms
proof (induction k arbitrary: g tasks)
  case 0
  then show ?case by simp
next
  case (Suc k)
  have b: "gmail_poll_begin g = Some (call MessagesList g)"
    using Suc.prems by (simp add: gmail_poll_begin_def)
  have c: "gmail (call MessagesList g)" "config (call MessagesList g) \<noteq> None"
    using Suc.prems by (simp_all add: call_def)
  have "gmail_run (g, tasks) (replicate (Suc k) Tick)
          = gmail_run (call MessagesList g, tasks @ [AwaitList]) (replicate k Tick)"
    using b by simp
  also have "\<dots> = Some ((call MessagesList g)
                          \<lparr>requests := requests (call MessagesList g) @ replicate k MessagesList\<rparr>,
                        (tasks @ [AwaitList]) @ replicate k AwaitList)"
    by (rule Suc.IH [OF c])
  also have "\<dots> = Some (g\<lparr>requests := requests g @ replicate (Suc k) MessagesList\<rparr>,
                        tasks @ replicate (Suc k) AwaitList)"
    by (simp add: call_def replicate_app_Cons_same)
  finally show ?case .
qed

lemma outlook_ticks_pile_up:
  assumes "config p \<noteq> None"
  shows "outlook_run (p, tasks) (replicate k (TickAt t))
           = (case cachedToken t p of
                Some token \<Rightarrow>
                  Some (p\<lparr>requests := requests p @ replicate k GraphList\<rparr>,
                        tasks @ replicate k AwaitMessages)
              | None \<Rightarrow>
                  Some (p\<lparr>requests := requests p @ replicate k TokenPost\<rparr>,
                        tasks @ replicate k AwaitToken))"
  using assms
proof (induction k arbitrary: p tasks)
  case 0
  then show ?case by (simp split: option.splits)
next
  case (Suc k)
  have keep: "cachedToken t (call r p) = cachedToken t p" "config (call r p) \<noteq> None" for r
    using Suc.prems by (simp_all add: cachedToken_def call_def split: option.splits)
  show ?case
  proof (cases "cachedToken t p")
    case None
    then have "outlook_run (p, tasks) (replicate (Suc k) (TickAt t))
                 = outlook_run (call TokenPost p, tasks @ [AwaitToken]) (replicate k (TickAt t))"
      using Suc.prems by (auto simp: outlook_poll_begin_def)
    also have "\<dots> = Some ((call TokenPost p)
                            \<lparr>requests := requests (call TokenPost p) @ replicate k TokenPost\<rparr>,
                          (tasks @ [AwaitToken]) @ replicate k AwaitToken)"
      using Suc.IH [OF keep(2), of TokenPost "tasks @ [AwaitToken]"] None keep(1) by simp
    also have "\<dots> = Some (p\<lparr>requests := requests p @ replicate (Suc k) TokenPost\<rparr>,
                          tasks @ replicate (Suc k) AwaitToken)"
      by (simp add: call_def replicate_app_Cons_same)
    finally show ?thesis using None by simp
  next
    case (Some token)
    then have "outlook_run (p, tasks) (replicate (Suc k) (TickAt t))
                 = outlook_run (call GraphList p, tasks @ [AwaitMessages]) (replicate k (TickAt t))"
      using Suc.prems by (auto simp: outlook_poll_begin_def)
    also have "\<dots> = Some ((call GraphList p)
                            \<lparr>requests := requests (call GraphList p) @ replicate k GraphList\<rparr>,
                          (tasks @ [AwaitMessages]) @ replicate k AwaitMessages)"
      using Suc.IH [OF keep(2), of GraphList "tasks @ [AwaitMessages]"] Some keep(1) by simp
    also have "\<dots> = Some (p\<lparr>requests := requests p @ replicate (Suc k) GraphList\<rparr>,
                          tasks @ replicate (Suc k) AwaitMessages)"
      by (simp add: call_def replicate_app_Cons_same)
    finally show ?thesis using Some by simp
  qed
qed

text \<open>
  Claim C4, as amended. For the mail service, after any sequence of \<open>exists\<close> events and
  of handlers running on, from a state where no scan runs, at most one handler is
  suspended, and one is suspended exactly when \<open>processingMailbox\<close> is set; an \<open>exists\<close>
  event that comes while the flag is set changes nothing (no second scan, no backend
  call), and one that comes while it is not set starts one handler. The polling services
  have no such flag: \<open>k\<close> ticks of the cron job with no answer of the backend in between
  add \<open>k\<close> suspended polls to those already suspended, each having made its first backend
  call: the listing call for the Gmail service; for the Outlook service the listing call
  when the cached token is returned, and the token request otherwise.
\<close>

theorem watcher_runs_one_scan:
  assumes "\<not> processingMailbox s0" and "gmail g" and "config g \<noteq> None" and "config p \<noteq> None"
  shows "length (snd (mail_run cfg (s0, []) es)) \<le> 1
         \<and> processingMailbox (fst (mail_run cfg (s0, []) es))
             = (length (snd (mail_run cfg (s0, []) es)) = 1)
         \<and> (if processingMailbox (fst (mail_run cfg (s0, []) es))
             then mail_step cfg (mail_run cfg (s0, []) es) (Exists box) = mail_run cfg (s0, []) es
             else length (snd (mail_step cfg (mail_run cfg (s0, []) es) (Exists box))) = 1)
         \<and> gmail_run (g, gtasks) (replicate k Tick)
             = Some (g\<lparr>requests := requests g @ replicate k MessagesList\<rparr>,
                     gtasks @ replicate k AwaitList)
         \<and> outlook_run (p, ptasks) (replicate k (TickAt t))
             = (case cachedToken t p of
                  Some token \<Rightarrow>
                    Some (p\<lparr>requests := requests p @ replicate k GraphList\<rparr>,
                          ptasks @ replicate k AwaitMessages)
                | None \<Rightarrow>
                    Some (p\<lparr>requests := requests p @ replicate k TokenPost\<rparr>,
                          ptasks @ replicate k AwaitToken))"
proof -
  have "guard_inv (s0, [])" using assms(1) by (simp add: guard_inv_def)
  then have inv: "guard_inv (mail_run cfg (s0, []) es)" by (rule mail_run_inv)
  then have inv': "guard_inv (mail_step cfg (mail_run cfg (s0, []) es) (Exists box))"
    by (rule mail_step_inv)
  obtain s tasks where r: "mail_run cfg (s0, []) es = (s, tasks)"
    by (cases "mail_run cfg (s0, []) es")
  from inv r have n: "length tasks = (if processingMailbox s then 1 else 0)"
    by (simp add: guard_inv_def)
  have dropped: "mail_step cfg (s, tasks) (Exists box) = (s, tasks)" if "processingMailbox s"
    using that by (simp add: exists_begin_def)
  have started: "length (snd (mail_step cfg (s, tasks) (Exists box))) = 1"
    if "\<not> processingMailbox s"
    using that n by (simp add: exists_begin_def split: option.splits)
  have mail: "length tasks \<le> 1 \<and> processingMailbox s = (length tasks = 1)
      \<and> (if processingMailbox s then mail_step cfg (s, tasks) (Exists box) = (s, tasks)
          else length (snd (mail_step cfg (s, tasks) (Exists box))) = 1)"
    using n dropped started by (cases "processingMailbox s") simp_all
  show ?thesis
    unfolding r using mail gmail_ticks_pile_up [OF assms(2,3), of gtasks k]
      outlook_ticks_pile_up [OF assms(4), of ptasks k t]
    by (simp del: mail_step.simps)
qed

theorem watcher_runs_one_scan_witness:
  "length (snd (mail_run mail_example_config (mail_started 10, []) two_events)) \<le> 1
   \<and> processingMailbox (fst (mail_run mail_example_config (mail_started 10, []) two_events))
       = (length (snd (mail_run mail_example_config (mail_started 10, []) two_events)) = 1)
   \<and> requests (fst (mail_run mail_example_config (mail_started 10, []) two_events))
       = [ImapFetch 11]
   \<and> gmail_run (gmail_started 100, []) (replicate 2 Tick)
       = Some ((gmail_started 100)
                 \<lparr>requests := requests (gmail_started 100) @ replicate 2 MessagesList\<rparr>,
               [] @ replicate 2 AwaitList)
   \<and> outlook_run (token_at_T0, []) (replicate 2 (TickAt (T0 + 1000)))
       = Some (token_at_T0\<lparr>requests := requests token_at_T0 @ replicate 2 GraphList\<rparr>,
               [] @ replicate 2 AwaitMessages)"
proof -
  have a: "\<not> processingMailbox (mail_started 10)" by code_simp
  have b: "gmail (gmail_started 100)" by code_simp
  have c: "config (gmail_started 100) \<noteq> None" by (simp add: gmail_started_def)
  have d: "config token_at_T0 \<noteq> None" by code_simp
  have e: "cachedToken (T0 + 1000) token_at_T0 = Some ''first''" by code_simp
  have f: "requests (fst (mail_run mail_example_config (mail_started 10, []) two_events))
             = [ImapFetch 11]"
    by code_simp
  show ?thesis
    using watcher_runs_one_scan [OF a b c d, of mail_example_config two_events _ "[]" 2 "[]"
        "T0 + 1000"] e f
    by simp
qed

text \<open>
  Claim C4, as stated, fails for the poll sources: two ticks with no answer of the
  backend in between leave two polls in flight, with two listing calls made by the Gmail
  service and two token requests made by the Outlook service.
\<close>

theorem overlapping_polls_counterexample:
  "map_option (\<lambda>c. (snd c, requests (fst c))) (gmail_run (gmail_started 100, []) [Tick, Tick])
     = Some ([AwaitList, AwaitList], [MessagesList, MessagesList])
   \<and> map_option (\<lambda>c. (snd c, requests (fst c)))
       (outlook_run (outlook_started, []) [TickAt T0, TickAt (T0 + 1000)])
     = Some ([AwaitToken, AwaitToken], [TokenPost, TokenPost])"
  by code_simp

text \<open>
  Two overlapping polls of the Gmail service that both list \<open>[A, B]\<close> notify each
  message twice: the second poll tests the cache before the first has inserted.
\<close>

lemma overlapping_polls_notify_twice:
  "map_option (\<lambda>c. (notified (logger (fst c)), snd c))
     (gmail_run (gmail_started 100, [])
        [Tick, Tick, ListAnswer 0 listing_AB, ListAnswer 1 listing_AB,
         GetAnswer 0 (Inr []), GetAnswer 1 (Inr []), GetAnswer 0 (Inr []), GetAnswer 0 (Inr [])])
     = Some ([''A'', ''A'', ''B'', ''B''], [])"
  by code_simp

section \<open>Properties of the start-up\<close>

text \<open>
  Claim C9, as stated, fails: with the mail service enabled and \<open>SOURCE_EMAIL\<close> missing,
  \<open>MailService.onModuleInit\<close> throws the configuration error, and the process exits with
  status 1, although the Outlook service starts without an error in this environment
  (its cron job is created).
\<close>

theorem missing_credential_counterexample:
  "bootstrap env_without_source_email (\<lambda>v. NaN) world_up (\<lambda>x. None) = Exited 1
   \<and> mail_onModuleInit env_without_source_email (\<lambda>v. NaN) world_up mail_init
       = Threw (MissingEnv ''SOURCE_EMAIL'') mail_init
   \<and> \<not> threw (outlook_onModuleInit env_without_source_email (\<lambda>v. NaN) (\<lambda>x. None) outlook_init)
   \<and> cronJob (state_of (outlook_onModuleInit env_without_source_email (\<lambda>v. NaN) (\<lambda>x. None)
                            outlook_init))"
  by code_simp

lemma gmail_onModuleInit_returns: "\<not> threw (gmail_onModuleInit env num cron g)"
  by (simp add: gmail_onModuleInit_def split: sum.splits outcome.splits)

lemma outlook_onModuleInit_returns: "\<not> threw (outlook_onModuleInit env num cron p)"
  by (simp add: outlook_onModuleInit_def split: sum.splits outcome.splits)

lemma mail_onModuleInit_threw:
  "threw (mail_onModuleInit env num w s)
     = (isEnabled env ''MAIL_SERVICE_ENABLED''
        \<and> (isl (mail_resolveConfig env num) \<or> verify w \<noteq> None \<or> connect w \<noteq> None
           \<or> isl (mailboxOpen w)))"
  by (auto simp: mail_onModuleInit_def bootstrapSmtpTransport_def startImapWatcher_def Let_def
      split: sum.splits outcome.splits option.splits)

lemma mail_resolveConfig_fails:
  "isl (mail_resolveConfig env num)
     = (isl (requireEnv env ''SOURCE_EMAIL'') \<or> isl (requireEnv env ''SOURCE_APP_PASSWORD'')
        \<or> isl (requireEnv env ''NOTIFY_RECIPIENT''))"
  by (simp add: mail_resolveConfig_def split: sum.splits)

lemma gmail_pollInbox_keeps:
  assumes "gmail_pollInbox listing get s = Some r"
  shows "config (state_of r) = config s \<and> cronJob (state_of r) = cronJob s
         \<and> gmail (state_of r) = gmail s"
proof (cases "gmail_poll_begin s")
  case None
  with assms show ?thesis by (auto simp: gmail_pollInbox_def)
next
  case (Some s1)
  then have s1: "s1 = call MessagesList s"
    by (simp add: gmail_poll_begin_def split: if_splits)
  from assms Some have r: "gmail_poll_resume listing get s1 = Some r"
    by (simp add: gmail_pollInbox_def)
  show ?thesis
  proof (cases listing)
    case (Inl e)
    with r s1 show ?thesis by (auto simp: gmail_poll_resume_def call_def)
  next
    case (Inr ms)
    show ?thesis
    proof (cases "(case ms of None \<Rightarrow> [] | Some l \<Rightarrow> l) = []")
      case True
      with r Inr s1 show ?thesis by (auto simp: gmail_poll_resume_def call_def log_to_def)
    next
      case False
      with r Inr have "gmail_poll_loop get (case ms of None \<Rightarrow> [] | Some l \<Rightarrow> l) s1 = Some r"
        by (simp add: gmail_poll_resume_def)
      from gmail_poll_loop_keeps_config [OF this] gmail_poll_loop_keeps_gmail [OF this] s1
      show ?thesis by (simp add: call_def)
    qed
  qed
qed

lemma outlook_poll_loop_keeps:
  "outlook_poll_loop messages s = Some r \<Longrightarrow>
   config (state_of r) = config s \<and> cronJob (state_of r) = cronJob s"
proof (induction messages s arbitrary: r rule: outlook_poll_loop.induct)
  case (1 s)
  then show ?case by auto
next
  case (2 message rest s)
  show ?case
  proof (cases "msg_id message")
    case None
    with 2 show ?thesis by simp
  next
    case (Some i)
    show ?thesis
    proof (cases "i = [] \<or> i \<in> processedSet s")
      case True
      with 2 Some show ?thesis by simp
    next
      case False
      with "2.prems" Some obtain s' where t: "trackProcessed i (logMessage i message s) = Some s'"
        and l: "outlook_poll_loop rest s' = Some r"
        by (auto split: option.splits)
      have "config s' = config (logMessage i message s)
            \<and> cronJob s' = cronJob (logMessage i message s)"
        using trackProcessed_shape [OF t] by auto
      moreover have "config (logMessage i message s) = config s
                     \<and> cronJob (logMessage i message s) = cronJob s"
        by (simp add: logMessage_def log_to_def Let_def)
      moreover have "config (state_of r) = config s' \<and> cronJob (state_of r) = cronJob s'"
        using "2.IH"(3) [OF Some False t l] .
      ultimately show ?thesis by simp
    qed
  qed
qed

lemma getAccessToken_keeps:
  "config (snd (getAccessToken w s)) = config s \<and> cronJob (snd (getAccessToken w s)) = cronJob s"
  by (simp add: getAccessToken_def exchangeToken_def token_answer_def call_def Let_def
      split: option.splits sum.splits)

lemma outlook_pollInbox_keeps:
  assumes "outlook_pollInbox w s = Some r"
  shows "config (state_of r) = config s \<and> cronJob (state_of r) = cronJob s"
proof (cases "config s = None")
  case True
  with assms show ?thesis by (auto simp: outlook_pollInbox_def)
next
  case False
  obtain res s1 where g: "getAccessToken w s = (res, s1)" by (cases "getAccessToken w s")
  with getAccessToken_keeps [of w s] have k: "config s1 = config s" "cronJob s1 = cronJob s"
    by simp_all
  show ?thesis
  proof (cases res)
    case (Inl e)
    with assms False g k show ?thesis
      by (auto simp: outlook_pollInbox_def listUnreadMessages_def outlook_poll_rest_def)
  next
    case (Inr token)
    with assms False g
    have r: "outlook_poll_rest (list_answer (listResponse w)) (call GraphList s1) = Some r"
      by (simp add: outlook_pollInbox_def listUnreadMessages_def)
    show ?thesis
    proof (cases "list_answer (listResponse w)")
      case (Inl e)
      with r k show ?thesis by (auto simp: outlook_poll_rest_def call_def)
    next
      case (Inr messages)
      show ?thesis
      proof (cases "messages = []")
        case True
        with r Inr k show ?thesis by (auto simp: outlook_poll_rest_def call_def log_to_def)
      next
        case False
        with r Inr have "outlook_poll_loop messages (call GraphList s1) = Some r"
          by (simp add: outlook_poll_rest_def)
        from outlook_poll_loop_keeps [OF this] k show ?thesis by (simp add: call_def)
      qed
    qed
  qed
qed

lemma sendNotification_keeps_clients:
  "imapClient (state_of (sendNotification cfg send env s)) = imapClient s
   \<and> smtpTransport (state_of (sendNotification cfg send env s)) = smtpTransport s"
  by (simp add: sendNotification_def log_to_def call_def Let_def split: option.splits)

lemma handle_loop_keeps_clients:
  "imapClient (state_of (handle_loop cfg send fin ms s)) = imapClient s
   \<and> smtpTransport (state_of (handle_loop cfg send fin ms s)) = smtpTransport s"
proof (induction cfg send fin ms s rule: handle_loop.induct)
  case (1 cfg send fin s)
  then show ?case by (simp split: option.splits)
next
  case (2 cfg send fin m rest s)
  show ?case
  proof (cases "envelope m = None \<or> uid m = 0 \<or> uid m \<le> lastProcessedUid s")
    case True
    with 2 show ?thesis by simp
  next
    case False
    show ?thesis
    proof (cases "sendNotification cfg send (envelope m) s")
      case (Threw e s')
      with False sendNotification_keeps_clients [of cfg send "envelope m" s]
      show ?thesis by auto
    next
      case (Returned s')
      with False "2.IH"(2) [OF False Returned]
        sendNotification_keeps_clients [of cfg send "envelope m" s]
      show ?thesis by auto
    qed
  qed
qed

lemma handleNewMessages_keeps_clients:
  "imapClient (state_of (handleNewMessages cfg w s)) = imapClient s
   \<and> smtpTransport (state_of (handleNewMessages cfg w s)) = smtpTransport s"
proof (cases "handle_begin (clientMailbox w) s")
  case None
  then show ?thesis by (simp add: handleNewMessages_def)
next
  case (Some s')
  then have "imapClient s' = imapClient s \<and> smtpTransport s' = smtpTransport s"
    by (auto simp: handle_begin_def call_def Let_def split: if_splits option.splits)
  with Some handle_loop_keeps_clients [of cfg "sendMail w" "fetchError w" "fetched w" s']
  show ?thesis by (simp add: handleNewMessages_def)
qed

text \<open>
  Claim C9, as amended. At start-up: the \<open>onModuleInit\<close> of the Gmail service and of the
  Outlook service never throws: a missing credential, or a cron job that cannot be
  created, is caught there and logged. The \<open>onModuleInit\<close> of the mail service throws
  exactly when the service is enabled and a required setting (\<open>SOURCE_EMAIL\<close>,
  \<open>SOURCE_APP_PASSWORD\<close>, \<open>NOTIFY_RECIPIENT\<close>) is missing, the SMTP verification fails, the
  IMAP connection fails or the mailbox cannot be opened; the process then exits with
  status 1, and otherwise runs both services. At run time: when a poll of the Gmail
  service or of the Outlook service throws, the callback of the cron job logs the error
  and ends; the service keeps its configuration and its cron job (the Gmail service its
  client too), so the next tick polls again. When \<open>handleNewMessages\<close> throws, the handler
  of the \<open>exists\<close> event logs the error, resets \<open>processingMailbox\<close> and ends; the service
  keeps its IMAP client and its SMTP transport, so the next event scans again. Each of
  these handlers reads and writes the fields of its own service only.
\<close>

theorem source_errors:
  "\<not> threw (gmail_onModuleInit env num cron g)
   \<and> \<not> threw (outlook_onModuleInit env num cron p)
   \<and> threw (mail_onModuleInit env num w mail_init)
       = (isEnabled env ''MAIL_SERVICE_ENABLED''
          \<and> (isl (requireEnv env ''SOURCE_EMAIL'') \<or> isl (requireEnv env ''SOURCE_APP_PASSWORD'')
             \<or> isl (requireEnv env ''NOTIFY_RECIPIENT'')
             \<or> verify w \<noteq> None \<or> connect w \<noteq> None \<or> isl (mailboxOpen w)))
   \<and> bootstrap env num w cron
       = (if threw (mail_onModuleInit env num w mail_init) then Exited 1
          else Running (state_of (mail_onModuleInit env num w mail_init))
                 (state_of (outlook_onModuleInit env num cron outlook_init)))
   \<and> (gmail_pollInbox listing get gs = Some (Threw e gs')
      \<longrightarrow> gmail_tick listing get gs = Some (log_to (LogError ''Gmail API poll failed'' e) gs')
          \<and> config gs' = config gs \<and> cronJob gs' = cronJob gs \<and> gmail gs' = gmail gs)
   \<and> (outlook_pollInbox gw ps = Some (Threw e ps')
      \<longrightarrow> outlook_tick gw ps
            = Some (log_to (LogError ''Outlook Graph poll failed'' e) ps')
          \<and> config ps' = config ps \<and> cronJob ps' = cronJob ps)
   \<and> (\<not> processingMailbox ms
        \<and> handleNewMessages cfg sw (ms\<lparr>processingMailbox := True\<rparr>) = Threw e ms'
      \<longrightarrow> scan cfg sw ms
            = (log_to (LogError ''Failed to process new message'' e) ms')
                \<lparr>processingMailbox := False\<rparr>
          \<and> imapClient ms' = imapClient ms \<and> smtpTransport ms' = smtpTransport ms)"
proof -
  have boot: "bootstrap env num w cron
       = (if threw (mail_onModuleInit env num w mail_init) then Exited 1
          else Running (state_of (mail_onModuleInit env num w mail_init))
                 (state_of (outlook_onModuleInit env num cron outlook_init)))"
    using outlook_onModuleInit_returns [of env num cron outlook_init]
    by (cases "mail_onModuleInit env num w mail_init";
        cases "outlook_onModuleInit env num cron outlook_init")
       (simp_all add: bootstrap_def createApplicationContext_def)
  have start: "\<not> threw (gmail_onModuleInit env num cron g)
   \<and> \<not> threw (outlook_onModuleInit env num cron p)
   \<and> threw (mail_onModuleInit env num w mail_init)
       = (isEnabled env ''MAIL_SERVICE_ENABLED''
          \<and> (isl (requireEnv env ''SOURCE_EMAIL'') \<or> isl (requireEnv env ''SOURCE_APP_PASSWORD'')
             \<or> isl (requireEnv env ''NOTIFY_RECIPIENT'')
             \<or> verify w \<noteq> None \<or> connect w \<noteq> None \<or> isl (mailboxOpen w)))"
    using gmail_onModuleInit_returns [of env num cron g]
      outlook_onModuleInit_returns [of env num cron p]
      mail_onModuleInit_threw [of env num w mail_init] mail_resolveConfig_fails [of env num]
    by simp
  have gm: "gmail_tick listing get gs = Some (log_to (LogError ''Gmail API poll failed'' e) gs')
          \<and> config gs' = config gs \<and> cronJob gs' = cronJob gs \<and> gmail gs' = gmail gs"
    if "gmail_pollInbox listing get gs = Some (Threw e gs')"
    using that gmail_pollInbox_keeps [OF that] by (simp add: gmail_tick_def)
  have ol: "outlook_tick gw ps = Some (log_to (LogError ''Outlook Graph poll failed'' e) ps')
          \<and> config ps' = config ps \<and> cronJob ps' = cronJob ps"
    if "outlook_pollInbox gw ps = Some (Threw e ps')"
    using that outlook_pollInbox_keeps [OF that] by (simp add: outlook_tick_def)
  have ml: "scan cfg sw ms
            = (log_to (LogError ''Failed to process new message'' e) ms')
                \<lparr>processingMailbox := False\<rparr>
          \<and> imapClient ms' = imapClient ms \<and> smtpTransport ms' = smtpTransport ms"
    if "\<not> processingMailbox ms
        \<and> handleNewMessages cfg sw (ms\<lparr>processingMailbox := True\<rparr>) = Threw e ms'"
    using that handleNewMessages_keeps_clients [of cfg sw "ms\<lparr>processingMailbox := True\<rparr>"]
    by (simp add: scan_def exists_begin_def exists_finish_def)
  from boot start gm ol ml show ?thesis by blast
qed

theorem source_errors_witness:
  "threw (mail_onModuleInit env_without_source_email (\<lambda>v. NaN) world_up mail_init)
   \<and> bootstrap env_without_source_email (\<lambda>v. NaN) world_up (\<lambda>x. None) = Exited 1
   \<and> \<not> threw (outlook_onModuleInit env_without_source_email (\<lambda>v. NaN) (\<lambda>x. None) outlook_init)
   \<and> gmail_pollInbox listing_ABC failing_get (gmail_started 100)
       = Some (Threw (Rejected ''get failed'') (call (MessagesGet ''B'') after_A))
   \<and> gmail_tick listing_ABC failing_get (gmail_started 100)
       = Some (log_to (LogError ''Gmail API poll failed'' (Rejected ''get failed''))
                 (call (MessagesGet ''B'') after_A))
   \<and> config (call (MessagesGet ''B'') after_A) = config (gmail_started 100)
   \<and> cronJob (call (MessagesGet ''B'') after_A) = cronJob (gmail_started 100)
   \<and> gmail (call (MessagesGet ''B'') after_A) = gmail (gmail_started 100)
   \<and> outlook_pollInbox (at_time T0 token_refused) outlook_started
       = Some (Threw (TokenRequestFailed 401 ''unauthorized'') (call TokenPost outlook_started))
   \<and> outlook_tick (at_time T0 token_refused) outlook_started
       = Some (log_to (LogError ''Outlook Graph poll failed''
                         (TokenRequestFailed 401 ''unauthorized''))
                 (call TokenPost outlook_started))
   \<and> config (call TokenPost outlook_started) = config outlook_started
   \<and> cronJob (call TokenPost outlook_started) = cronJob outlook_started
   \<and> handleNewMessages mail_example_config (inbox_11_13 (reject_subject ''twelve''))
         ((mail_started 10)\<lparr>processingMailbox := True\<rparr>)
       = Threw (Rejected ''send failed'') failed_at_12
   \<and> scan mail_example_config (inbox_11_13 (reject_subject ''twelve'')) (mail_started 10)
       = (log_to (LogError ''Failed to process new message'' (Rejected ''send failed''))
            failed_at_12)\<lparr>processingMailbox := False\<rparr>
   \<and> imapClient failed_at_12 = imapClient (mail_started 10)
   \<and> smtpTransport failed_at_12 = smtpTransport (mail_started 10)"
proof -
  have a: "isEnabled env_without_source_email ''MAIL_SERVICE_ENABLED''" by code_simp
  have b: "isl (requireEnv env_without_source_email ''SOURCE_EMAIL'')" by code_simp
  have c: "gmail_pollInbox listing_ABC failing_get (gmail_started 100)
       = Some (Threw (Rejected ''get failed'') (call (MessagesGet ''B'') after_A))"
    by code_simp
  have d: "outlook_pollInbox (at_time T0 token_refused) outlook_started
       = Some (Threw (TokenRequestFailed 401 ''unauthorized'') (call TokenPost outlook_started))"
    by code_simp
  have e: "\<not> processingMailbox (mail_started 10)"
    "handleNewMessages mail_example_config (inbox_11_13 (reject_subject ''twelve''))
         ((mail_started 10)\<lparr>processingMailbox := True\<rparr>)
       = Threw (Rejected ''send failed'') failed_at_12"
    by code_simp+
  show ?thesis
    using source_errors [where env = env_without_source_email and num = "\<lambda>v. NaN"
        and cron = "\<lambda>x. None" and g = gmail_init and p = outlook_init and w = world_up
        and listing = listing_ABC and get = failing_get and gs = "gmail_started 100"
        and e = "Rejected ''get failed''" and gs' = "call (MessagesGet ''B'') after_A"]
      source_errors [where gw = "at_time T0 token_refused" and ps = outlook_started
        and e = "TokenRequestFailed 401 ''unauthorized''"
        and ps' = "call TokenPost outlook_started"]
      source_errors [where cfg = mail_example_config
        and sw = "inbox_11_13 (reject_subject ''twelve'')" and ms = "mail_started 10"
        and e = "Rejected ''send failed''" and ms' = failed_at_12]
      a b c d e
    by simp
qed

end
